theory Spec2Isabelle
  imports Main
begin

section \<open>JavaScript strings\<close>

text \<open>
  Strings are lists of characters. \<open>lastIndexOf\<close> is \<^verbatim>\<open>String.prototype.lastIndexOf\<close>
  for a one-character needle: the index of the last occurrence, or \<open>-1\<close> when there is none.
  \<open>slice\<close> is \<^verbatim>\<open>String.prototype.slice(start, end)\<close>: a negative index counts from
  the end of the string, every index is clamped to the string.
\<close>

definition lastIndexOf :: "string \<Rightarrow> char \<Rightarrow> int" where
  "lastIndexOf s c =
     (if c \<in> set s then int (length s) - 1 - int (length (takeWhile (\<lambda>x. x \<noteq> c) (rev s)))
      else - 1)"

definition relIndex :: "nat \<Rightarrow> int \<Rightarrow> nat" where
  "relIndex n i = (if i < 0 then nat (max 0 (int n + i)) else min n (nat i))"

definition slice :: "string \<Rightarrow> int \<Rightarrow> int \<Rightarrow> string" where
  "slice s b e = (let from = relIndex (length s) b; to = relIndex (length s) e
                  in take (to - from) (drop from s))"

definition sliceFrom :: "string \<Rightarrow> int \<Rightarrow> string" where
  "sliceFrom s b = drop (relIndex (length s) b) s"

definition toLowerChar :: "char \<Rightarrow> char" where
  "toLowerChar c =
     (case map_of (zip ''ABCDEFGHIJKLMNOPQRSTUVWXYZ'' ''abcdefghijklmnopqrstuvwxyz'') c of
        Some l \<Rightarrow> l | None \<Rightarrow> c)"

definition toLowerCase :: "string \<Rightarrow> string" where
  "toLowerCase s = map toLowerChar s"

text \<open>The decimal rendering of an integer, as a template literal prints a whole number.\<close>

definition digitChar :: "nat \<Rightarrow> char" where
  "digitChar d =
     (if d = 0 then CHR ''0'' else if d = 1 then CHR ''1'' else if d = 2 then CHR ''2''
      else if d = 3 then CHR ''3'' else if d = 4 then CHR ''4'' else if d = 5 then CHR ''5''
      else if d = 6 then CHR ''6'' else if d = 7 then CHR ''7'' else if d = 8 then CHR ''8''
      else CHR ''9'')"

fun showNat :: "nat \<Rightarrow> string" where
  "showNat n = (if n < 10 then [digitChar n] else showNat (n div 10) @ [digitChar (n mod 10)])"

definition showInt :: "int \<Rightarrow> string" where
  "showInt i = (if i < 0 then ''-'' @ showNat (nat (- i)) else showNat (nat i))"

section \<open>JavaScript numbers\<close>

text \<open>
  The dimensions of an image and the configured widths are whole numbers (\<open>int\<close>). The aspect
  ratio and its product with a width are IEEE 754 binary64 values: a finite double is
  \<open>m * 2 ^ e\<close>, kept as the pair \<open>Dbl m e\<close>. \<open>toDouble n d\<close> rounds the rational \<open>n / d\<close>
  (\<open>d > 0\<close>) to 53 significant bits, ties to even, which is what \<^verbatim>\<open>/\<close> and \<^verbatim>\<open>*\<close> do on
  doubles (exponent range aside: the values here are far from overflow and underflow).
\<close>

datatype dbl = Dbl int int

function bits :: "int \<Rightarrow> nat" where
  "bits n = (if n \<le> 0 then 0 else Suc (bits (n div 2)))"
  by pat_completeness auto
termination
  by (relation "measure nat") auto

definition roundHalfEven :: "int \<Rightarrow> int \<Rightarrow> int" where
  "roundHalfEven n d =
     (let q = n div d; r = n mod d
      in if 2 * r < d then q else if d < 2 * r then q + 1 else if even q then q else q + 1)"

definition roundPos :: "int \<Rightarrow> int \<Rightarrow> dbl" where
  "roundPos n d =
     (let e0 = int (bits n) - int (bits d);
          e = (if d * 2 ^ nat e0 \<le> n * 2 ^ nat (- e0) then e0 else e0 - 1);
          s = 52 - e;
          m = (if 0 \<le> s then roundHalfEven (n * 2 ^ nat s) d else roundHalfEven n (d * 2 ^ nat (- s)))
      in Dbl m (e - 52))"

definition toDouble :: "int \<Rightarrow> int \<Rightarrow> dbl" where
  "toDouble n d =
     (if n = 0 then Dbl 0 0
      else if n < 0 then (case roundPos (- n) d of Dbl m e \<Rightarrow> Dbl (- m) e)
      else roundPos n d)"

text \<open>\<^verbatim>\<open>a / b\<close> on two whole numbers, \<open>b \<noteq> 0\<close>.\<close>

definition ddiv :: "int \<Rightarrow> int \<Rightarrow> dbl" where
  "ddiv a b = (if b < 0 then toDouble (- a) (- b) else toDouble a b)"

text \<open>\<^verbatim>\<open>t * x\<close> for a whole number \<open>t\<close> and a double \<open>x\<close>.\<close>

definition dmul :: "int \<Rightarrow> dbl \<Rightarrow> dbl" where
  "dmul t x = (case x of Dbl m e \<Rightarrow>
     if 0 \<le> e then toDouble (t * m * 2 ^ nat e) 1 else toDouble (t * m) (2 ^ nat (- e)))"

text \<open>\<^verbatim>\<open>Math.round\<close>: the nearest integer, a tie going up.\<close>

definition mathRound :: "dbl \<Rightarrow> int" where
  "mathRound x = (case x of Dbl m e \<Rightarrow>
     if 0 \<le> e then m * 2 ^ nat e else (2 * m + 2 ^ nat (- e)) div (2 * 2 ^ nat (- e)))"

text \<open>The mathematical rounding of the rational \<open>n / d\<close> (\<open>d > 0\<close>), a tie going up.\<close>

definition roundRatio :: "int \<Rightarrow> int \<Rightarrow> int" where
  "roundRatio n d = (2 * n + d) div (2 * d)"

text \<open>
  The result of \<^verbatim>\<open>parseInt\<close> and the numbers that reach the codec from a request are whole
  numbers or \<^verbatim>\<open>NaN\<close>.
\<close>

datatype jsnum = NaN | Num int

section \<open>Path Resolver\<close>

definition SUPPORTED_EXTENSIONS :: "string list" where
  "SUPPORTED_EXTENSIONS =
     [''.jpg'', ''.jpeg'', ''.png'', ''.gif'', ''.webp'', ''.avif'', ''.tiff'', ''.svg'']"

definition isImageFile :: "string \<Rightarrow> bool" where
  "isImageFile filename =
     (let ext = sliceFrom (toLowerCase filename) (lastIndexOf filename CHR ''.'')
      in ext \<in> set SUPPORTED_EXTENSIONS)"

definition getOutputFilename :: "string \<Rightarrow> int \<Rightarrow> string \<Rightarrow> string" where
  "getOutputFilename originalName width format =
     (let baseName = slice originalName 0 (lastIndexOf originalName CHR ''.'')
      in baseName @ ''-'' @ showInt width @ ''w.'' @ format)"

section \<open>Data model\<close>

type_synonym path = string
type_synonym time = int
type_synonym buffer = "nat list"

text \<open>A generated rendition, as \<^verbatim>\<open>ImageManifestEntry["variants"]\<close> records it.\<close>

record variant =
  v_format :: string
  v_size :: int
  v_path :: path
  v_width :: int
  v_height :: int

record entry =
  e_original :: path
  e_width :: int
  e_height :: int
  e_variants :: "variant list"

text \<open>The merged configuration (\<^verbatim>\<open>config\<close>), the options the pipeline reads.\<close>

record config =
  publicPath :: string
  formats :: "string list"
  sizes :: "int list"
  quality :: int
  generateManifest :: bool
  keepOriginal :: bool
  skipExisting :: bool

text \<open>What \<^verbatim>\<open>sharp(path).metadata()\<close> returns; each field may be undefined.\<close>

record imgmeta =
  m_width :: "int option"
  m_height :: "int option"
  m_format :: "string option"

text \<open>
  A codec pipeline: the source, the \<^verbatim>\<open>resize\<close> box (always with \<^verbatim>\<open>fit: "cover"\<close> and
  \<^verbatim>\<open>withoutEnlargement: true\<close>) and the encoder chosen by the format switch, with its
  quality. \<open>Jpeg\<close> stands for \<^verbatim>\<open>jpeg({quality, mozjpeg: true})\<close>, \<open>Png\<close> for
  \<^verbatim>\<open>png({quality, compressionLevel: 9})\<close>, \<open>Unconverted\<close> for a pipeline no encoder was
  applied to.
\<close>

datatype encoder = Webp jsnum | Avif jsnum | Jpeg jsnum | Png jsnum | Unconverted

record pipeline =
  p_source :: path
  p_width :: jsnum
  p_height :: jsnum
  p_encoder :: encoder

text \<open>
  The world outside the process, which a run reads and does not change: the files of the
  input tree that are not files of the output tree (their recursive listing, \<open>None\<close> when
  \<^verbatim>\<open>readdir\<close> throws, and their \<^verbatim>\<open>stat\<close>), the codec (\<open>None\<close> where it throws) and
  whether \<^verbatim>\<open>mkdir\<close> and the manifest write succeed. Paths are relative to the input root
  and to the output root. \<open>outputInInput\<close> says how the two roots lie: \<open>Some d\<close> when the
  output root is the directory \<open>d\<close> of the input tree (\<open>d\<close> ends with a separator, or is
  empty when the roots are the same directory), \<open>None\<close> when the output root is outside the
  input tree.
\<close>

record env =
  inputDirExists :: bool
  outputInInput :: "path option"
  listing :: "path list option"
  inputStat :: "path \<Rightarrow> time option"
  metadata :: "path \<Rightarrow> imgmeta option"
  transform :: "pipeline \<Rightarrow> buffer option"
  mkdirOk :: "path \<Rightarrow> bool"
  manifestWriteOk :: bool
  fileType :: "path \<Rightarrow> string"

text \<open>The messages of \<^verbatim>\<open>logError\<close>.\<close>

datatype report =
    MetadataUnreadable path
  | ProcessFailed path
  | InputDirMissing
  | ProcessingFailed
  | OnTheFlyFailed path

text \<open>
  The plugin state (\<^verbatim>\<open>manifest\<close>, \<^verbatim>\<open>isProcessing\<close>) together with the output tree
  (its files in the order they were created, each with its modification time), the
  persisted manifest, the clock, the trace of codec invocations and the errors reported so
  far.
\<close>

record state =
  images :: "path \<rightharpoonup> entry"
  generatedAt :: time
  isProcessing :: bool
  outTree :: "(path \<times> time) list"
  manifestFile :: "(path \<rightharpoonup> entry) option"
  clock :: time
  codecCalls :: "pipeline list"
  errors :: "report list"

datatype 'a attempt = Done 'a state | Threw state

text \<open>The \<^verbatim>\<open>stat\<close> of a file of the output tree: its modification time, if it exists.\<close>

definition outFiles :: "state \<Rightarrow> path \<rightharpoonup> time" where
  "outFiles s = map_of (outTree s)"

definition fileExistsOut :: "state \<Rightarrow> path \<Rightarrow> bool" where
  "fileExistsOut s p = (outFiles s p \<noteq> None)"

definition fileExistsIn :: "env \<Rightarrow> path \<Rightarrow> bool" where
  "fileExistsIn ev p = (inputStat ev p \<noteq> None)"

text \<open>
  A write creates the file or replaces it, and stamps it with the current time; the clock
  never runs backwards.
\<close>

fun putFile :: "path \<Rightarrow> time \<Rightarrow> (path \<times> time) list \<Rightarrow> (path \<times> time) list" where
  "putFile p t [] = [(p, t)]"
| "putFile p t ((q, u) # files) = (if q = p then (p, t) # files else (q, u) # putFile p t files)"

definition writeFile :: "path \<Rightarrow> state \<Rightarrow> state" where
  "writeFile p s = s\<lparr>outTree := putFile p (clock s) (outTree s), clock := clock s + 1\<rparr>"

definition logError :: "report \<Rightarrow> state \<Rightarrow> state" where
  "logError r s = s\<lparr>errors := errors s @ [r]\<rparr>"

text \<open>
  The directory part of a relative path, up to and including its last separator; the empty
  string is the output root itself. \<^verbatim>\<open>processImage\<close> computes it this way for the Original;
  for an output file it cuts the absolute path at its last separator, which \<^verbatim>\<open>join\<close> makes
  the same directory under the output root.
\<close>

definition dirOf :: "path \<Rightarrow> path" where
  "dirOf p = slice p 0 (lastIndexOf p CHR ''/'' + 1)"

definition entryName :: "path \<Rightarrow> string" where
  "entryName p = sliceFrom p (lastIndexOf p CHR ''/'' + 1)"

text \<open>
  The input tree as the process finds it in state \<open>s\<close>. When the output root lies inside the
  input tree, the files of the output tree are files of the input tree as well: the
  recursive \<^verbatim>\<open>readdir\<close> lists them under the directory \<open>d\<close> (after the other files; the order
  of \<^verbatim>\<open>readdir\<close> is the file system's), and \<^verbatim>\<open>stat\<close> reads them.
\<close>

definition inputView :: "env \<Rightarrow> state \<Rightarrow> env" where
  "inputView ev s =
     (case outputInInput ev of
        None \<Rightarrow> ev
      | Some d \<Rightarrow>
          ev\<lparr>listing := map_option (\<lambda>files. files @ map (\<lambda>(x, t). d @ x) (outTree s)) (listing ev),
             inputStat := (\<lambda>p. if take (length d) p = d \<and> fileExistsOut s (drop (length d) p)
                                then outFiles s (drop (length d) p) else inputStat ev p)\<rparr>)"

text \<open>
  \<^verbatim>\<open>getImageFiles\<close>: the image files the recursive \<^verbatim>\<open>readdir\<close> finds in the input tree.
  \<^verbatim>\<open>processAllImages\<close> calls it on the input tree as it is when the run starts
  (\<open>inputView\<close>), so that a run finds the files earlier runs wrote when the output root lies
  inside the input tree.
\<close>

definition getImageFiles :: "env \<Rightarrow> path list option" where
  "getImageFiles ev = map_option (filter (\<lambda>p. isImageFile (entryName p))) (listing ev)"

section \<open>Staleness Detector\<close>

fun missingVariant :: "state \<Rightarrow> variant list \<Rightarrow> bool" where
  "missingVariant s [] = False"
| "missingVariant s (v # vs) = (if \<not> fileExistsOut s (v_path v) then True else missingVariant s vs)"

definition needsProcessing :: "env \<Rightarrow> state \<Rightarrow> path \<Rightarrow> bool" where
  "needsProcessing ev s relativePath =
     (case images s relativePath of
        None \<Rightarrow> True
      | Some manifestEntry \<Rightarrow>
          if e_variants manifestEntry = [] then True
          else if missingVariant s (e_variants manifestEntry) then True
          else (case inputStat ev relativePath of
                  None \<Rightarrow> True
                | Some inputMtime \<Rightarrow>
                    (case e_variants manifestEntry of
                       [] \<Rightarrow> True
                     | firstVariant # _ \<Rightarrow>
                         (case outFiles s (v_path firstVariant) of
                            None \<Rightarrow> True
                          | Some outputMtime \<Rightarrow> outputMtime < inputMtime))))"

section \<open>Variant Generator\<close>

text \<open>The format switch of \<^verbatim>\<open>processImage\<close>; it has no default branch.\<close>

definition formatOptions :: "string \<Rightarrow> int \<Rightarrow> encoder" where
  "formatOptions format q =
     (if format = ''webp'' then Webp (Num q)
      else if format = ''avif'' then Avif (Num q)
      else if format = ''jpeg'' then Jpeg (Num q)
      else if format = ''png'' then Png (Num q)
      else Unconverted)"

text \<open>
  The inner loop over \<^verbatim>\<open>config.formats\<close> for one target width. An exception (from
  \<^verbatim>\<open>ensureDir\<close> or from the codec) leaves the loop with the state reached so far.
\<close>

fun formatsLoop ::
  "config \<Rightarrow> env \<Rightarrow> path \<Rightarrow> int \<Rightarrow> int \<Rightarrow> string list \<Rightarrow> variant list \<Rightarrow> state
     \<Rightarrow> (variant list) attempt" where
  "formatsLoop cfg ev relativePath targetWidth targetHeight [] variants s = Done variants s"
| "formatsLoop cfg ev relativePath targetWidth targetHeight (format # rest) variants s =
     (let outputFilename = getOutputFilename relativePath targetWidth format;
          v = \<lparr>v_format = format, v_size = targetWidth, v_path = outputFilename,
               v_width = targetWidth, v_height = targetHeight\<rparr>
      in if skipExisting cfg \<and> fileExistsOut s outputFilename
         then formatsLoop cfg ev relativePath targetWidth targetHeight rest (variants @ [v]) s
         else if \<not> mkdirOk ev (dirOf outputFilename) then Threw s
         else
           (let pl = \<lparr>p_source = relativePath, p_width = Num targetWidth,
                      p_height = Num targetHeight,
                      p_encoder = formatOptions format (quality cfg)\<rparr>;
                s1 = s\<lparr>codecCalls := codecCalls s @ [pl]\<rparr>
            in case transform ev pl of
                 None \<Rightarrow> Threw s1
               | Some buf \<Rightarrow>
                   formatsLoop cfg ev relativePath targetWidth targetHeight rest (variants @ [v])
                     (writeFile outputFilename s1)))"

text \<open>The outer loop over \<^verbatim>\<open>config.sizes\<close>.\<close>

fun sizesLoop ::
  "config \<Rightarrow> env \<Rightarrow> path \<Rightarrow> int \<Rightarrow> dbl \<Rightarrow> int list \<Rightarrow> variant list \<Rightarrow> state
     \<Rightarrow> (variant list) attempt" where
  "sizesLoop cfg ev relativePath originalWidth aspectRatio [] variants s = Done variants s"
| "sizesLoop cfg ev relativePath originalWidth aspectRatio (targetWidth # rest) variants s =
     (if originalWidth < targetWidth
      then sizesLoop cfg ev relativePath originalWidth aspectRatio rest variants s
      else
        (let targetHeight = mathRound (dmul targetWidth aspectRatio)
         in case formatsLoop cfg ev relativePath targetWidth targetHeight (formats cfg) variants s of
              Threw s' \<Rightarrow> Threw s'
            | Done variants' s' \<Rightarrow>
                sizesLoop cfg ev relativePath originalWidth aspectRatio rest variants' s'))"

text \<open>The copy of the untouched original into the output tree.\<close>

definition copyOriginal :: "env \<Rightarrow> path \<Rightarrow> state \<Rightarrow> unit attempt" where
  "copyOriginal ev relativePath s =
     (if \<not> mkdirOk ev (dirOf relativePath) \<or> \<not> fileExistsIn ev relativePath then Threw s
      else Done () (writeFile relativePath s))"

text \<open>
  The body of the \<^verbatim>\<open>try\<close> block of \<^verbatim>\<open>processImage\<close> once the intrinsic dimensions are
  known: both loops, the optional copy, then the manifest update.
\<close>

definition generateVariants :: "config \<Rightarrow> env \<Rightarrow> path \<Rightarrow> int \<Rightarrow> int \<Rightarrow> state \<Rightarrow> unit attempt" where
  "generateVariants cfg ev relativePath originalWidth originalHeight s =
     (let aspectRatio = ddiv originalHeight originalWidth
      in case sizesLoop cfg ev relativePath originalWidth aspectRatio (sizes cfg) [] s of
           Threw s1 \<Rightarrow> Threw s1
         | Done variants s1 \<Rightarrow>
             (case (if keepOriginal cfg then copyOriginal ev relativePath s1 else Done () s1) of
                Threw s2 \<Rightarrow> Threw s2
              | Done _ s2 \<Rightarrow>
                  Done () (s2\<lparr>images := (images s2)(relativePath \<mapsto>
                             \<lparr>e_original = relativePath, e_width = originalWidth,
                              e_height = originalHeight, e_variants = variants\<rparr>)\<rparr>)))"

text \<open>
  \<^verbatim>\<open>processImage\<close>: \<^verbatim>\<open>ensureDir\<close> runs before the \<^verbatim>\<open>try\<close> and may throw to the caller;
  everything thrown inside the \<^verbatim>\<open>try\<close> is caught and reported.
\<close>

definition processImage :: "config \<Rightarrow> env \<Rightarrow> path \<Rightarrow> state \<Rightarrow> unit attempt" where
  "processImage cfg ev relativePath s =
     (if \<not> mkdirOk ev (dirOf relativePath) then Threw s
      else
        (case metadata ev relativePath of
           None \<Rightarrow> Done () (logError (ProcessFailed relativePath) s)
         | Some md \<Rightarrow>
             (case (m_width md, m_height md) of
                (Some originalWidth, Some originalHeight) \<Rightarrow>
                  if originalWidth = 0 \<or> originalHeight = 0
                  then Done () (logError (MetadataUnreadable relativePath) s)
                  else
                    (case generateVariants cfg ev relativePath originalWidth originalHeight s of
                       Threw s' \<Rightarrow> Done () (logError (ProcessFailed relativePath) s')
                     | Done _ s' \<Rightarrow> Done () s')
              | _ \<Rightarrow> Done () (logError (MetadataUnreadable relativePath) s))))"

section \<open>Batch Orchestrator\<close>

text \<open>
  The loop over the files to process. Each \<^verbatim>\<open>processImage\<close> reads the input tree as it is
  when its turn comes.
\<close>

fun processFiles :: "config \<Rightarrow> env \<Rightarrow> path list \<Rightarrow> state \<Rightarrow> unit attempt" where
  "processFiles cfg ev [] s = Done () s"
| "processFiles cfg ev (file # rest) s =
     (case processImage cfg (inputView ev s) file s of
        Threw s' \<Rightarrow> Threw s'
      | Done _ s' \<Rightarrow> processFiles cfg ev rest s')"

definition writeManifest :: "env \<Rightarrow> state \<Rightarrow> unit attempt" where
  "writeManifest ev s =
     (let s1 = s\<lparr>generatedAt := clock s\<rparr>
      in if manifestWriteOk ev
         then Done () (s1\<lparr>manifestFile := Some (images s1), clock := clock s1 + 1\<rparr>)
         else Threw s1)"

text \<open>
  The body of the \<^verbatim>\<open>try\<close> block of \<^verbatim>\<open>processAllImages\<close>. The discovery and the staleness
  check read the input tree as it is when the run starts.
\<close>

definition processAllBody :: "config \<Rightarrow> env \<Rightarrow> bool \<Rightarrow> state \<Rightarrow> unit attempt" where
  "processAllBody cfg ev forceAll s =
     (if \<not> inputDirExists ev then Done () (logError InputDirMissing s)
      else
        (case getImageFiles (inputView ev s) of
           None \<Rightarrow> Threw s
         | Some imageFiles \<Rightarrow>
             if imageFiles = [] then Done () s
             else if \<not> mkdirOk ev [] then Threw s
             else
               (let filesToProcess =
                      (if forceAll then imageFiles
                       else filter (needsProcessing (inputView ev s) s) imageFiles)
                in if \<not> forceAll \<and> filesToProcess = [] then Done () s
                   else
                     (case processFiles cfg ev filesToProcess s of
                        Threw s' \<Rightarrow> Threw s'
                      | Done _ s' \<Rightarrow>
                          if generateManifest cfg then writeManifest ev s' else Done () s'))))"

text \<open>
  \<^verbatim>\<open>processAllImages\<close>: the guard, the \<^verbatim>\<open>try\<close> body, the \<^verbatim>\<open>catch\<close> that reports, the
  \<^verbatim>\<open>finally\<close> that clears the guard.
\<close>

definition processAllImages :: "config \<Rightarrow> env \<Rightarrow> bool \<Rightarrow> state \<Rightarrow> state" where
  "processAllImages cfg ev forceAll s =
     (if isProcessing s then s
      else
        (let s1 = s\<lparr>isProcessing := True\<rparr>;
             s2 = (case processAllBody cfg ev forceAll s1 of
                     Threw s' \<Rightarrow> logError ProcessingFailed s'
                   | Done _ s' \<Rightarrow> s')
         in s2\<lparr>isProcessing := False\<rparr>))"

text \<open>The state an attempt ends in, and whether it ended by an exception.\<close>

fun stateOf :: "'a attempt \<Rightarrow> state" where
  "stateOf (Done _ s) = s"
| "stateOf (Threw s) = s"

fun threw :: "'a attempt \<Rightarrow> bool" where
  "threw (Done _ _) = False"
| "threw (Threw _) = True"

section \<open>On-The-Fly Resolver\<close>

text \<open>
  \<^verbatim>\<open>parseInt(str, 10)\<close>: leading white space, an optional sign, then the longest run of
  decimal digits; \<^verbatim>\<open>NaN\<close> when there is no digit.
\<close>

definition isWhiteSpace :: "char \<Rightarrow> bool" where
  "isWhiteSpace c = (c \<in> set [CHR '' '', CHR 0x09, CHR 0x0A, CHR 0x0B, CHR 0x0C, CHR 0x0D])"

definition isDigit :: "char \<Rightarrow> bool" where
  "isDigit c = (c \<in> set ''0123456789'')"

definition digitValue :: "char \<Rightarrow> int" where
  "digitValue c = int (length (takeWhile (\<lambda>d. d \<noteq> c) ''0123456789''))"

definition digitsValue :: "string \<Rightarrow> int" where
  "digitsValue ds = foldl (\<lambda>a c. 10 * a + digitValue c) 0 ds"

definition parseInt :: "string \<Rightarrow> jsnum" where
  "parseInt str =
     (let t = dropWhile isWhiteSpace str;
          negative = (t \<noteq> [] \<and> hd t = CHR ''-'');
          r = (if t \<noteq> [] \<and> (hd t = CHR ''-'' \<or> hd t = CHR ''+'') then tl t else t);
          ds = takeWhile isDigit r
      in if ds = [] then NaN
         else Num (if negative then - digitsValue ds else digitsValue ds))"

text \<open>The format switch of \<^verbatim>\<open>optimizeOnTheFly\<close>: the encoder and the content type.\<close>

definition onTheFlyFormat :: "string \<Rightarrow> jsnum \<Rightarrow> imgmeta \<Rightarrow> encoder \<times> string" where
  "onTheFlyFormat format q md =
     (if format = ''webp'' then (Webp q, ''image/webp'')
      else if format = ''avif'' then (Avif q, ''image/avif'')
      else if format = ''jpeg'' \<or> format = ''jpg'' then (Jpeg q, ''image/jpeg'')
      else if format = ''png'' then (Png q, ''image/png'')
      else (Unconverted, ''image/'' @ (case m_format md of None \<Rightarrow> ''jpeg'' | Some f \<Rightarrow> f)))"

text \<open>\<^verbatim>\<open>Math.round(targetWidth * aspectRatio)\<close> when the width may be \<^verbatim>\<open>NaN\<close>.\<close>

definition scaledHeight :: "jsnum \<Rightarrow> dbl \<Rightarrow> jsnum" where
  "scaledHeight targetWidth aspectRatio =
     (case targetWidth of NaN \<Rightarrow> NaN | Num t \<Rightarrow> Num (mathRound (dmul t aspectRatio)))"

text \<open>
  \<^verbatim>\<open>optimizeOnTheFly\<close>: \<open>None\<close> is the \<^verbatim>\<open>null\<close> result. The width is \<open>None\<close> when the
  caller passes \<^verbatim>\<open>undefined\<close>. Whatever the codec throws is caught and reported.
\<close>

definition optimizeOnTheFly ::
  "env \<Rightarrow> path \<Rightarrow> jsnum option \<Rightarrow> string \<Rightarrow> jsnum \<Rightarrow> state \<Rightarrow> (buffer \<times> string) option \<times> state" where
  "optimizeOnTheFly ev relativePath width format q s =
     (if \<not> fileExistsIn ev relativePath then (None, s)
      else
        (case metadata ev relativePath of
           None \<Rightarrow> (None, logError (OnTheFlyFailed relativePath) s)
         | Some md \<Rightarrow>
             (case (m_width md, m_height md) of
                (Some mw, Some mh) \<Rightarrow>
                  if mw = 0 \<or> mh = 0 then (None, s)
                  else
                    (let targetWidth = (case width of None \<Rightarrow> Num mw | Some n \<Rightarrow> n);
                         aspectRatio = ddiv mh mw;
                         targetHeight = scaledHeight targetWidth aspectRatio;
                         pl = \<lparr>p_source = relativePath, p_width = targetWidth,
                               p_height = targetHeight,
                               p_encoder = fst (onTheFlyFormat format q md)\<rparr>;
                         contentType = snd (onTheFlyFormat format q md);
                         s1 = s\<lparr>codecCalls := codecCalls s @ [pl]\<rparr>
                     in case transform ev pl of
                          None \<Rightarrow> (None, logError (OnTheFlyFailed relativePath) s1)
                        | Some buffer \<Rightarrow> (Some (buffer, contentType), s1))
              | _ \<Rightarrow> (None, s))))"

text \<open>
  The request: the path of the URL and the three query parameters as
  \<^verbatim>\<open>url.searchParams.get\<close> returns them (\<open>None\<close> for \<^verbatim>\<open>null\<close>). A string is truthy when it is
  present and not empty.
\<close>

record request =
  pathname :: string
  param_w :: "string option"
  param_format :: "string option"
  param_q :: "string option"

definition truthy :: "string option \<Rightarrow> bool" where
  "truthy x = (case x of None \<Rightarrow> False | Some v \<Rightarrow> v \<noteq> [])"

datatype body = TextBody string | OutputFileBody path | InputFileBody path | BufferBody buffer

record response =
  resp_status :: nat
  resp_headers :: "(string \<times> string) list"
  resp_body :: body

text \<open>
  The pattern \<^verbatim>\<open>/^(.+)-(\d+)w\.(webp|avif|jpeg|jpg|png)$/i\<close>, read from the end of the
  string: the extension after the last dot, the letter w, the run of digits, the dash, and a
  base that is not empty and has no line terminator. The result is the three groups.
\<close>

definition variantMatch :: "string \<Rightarrow> (string \<times> string \<times> string) option" where
  "variantMatch relativePath =
     (let dot = lastIndexOf relativePath CHR ''.'';
          ext = sliceFrom relativePath (dot + 1);
          front = rev (slice relativePath 0 dot);
          digits = takeWhile isDigit (tl front);
          rest = dropWhile isDigit (tl front)
      in if dot < 0 \<or> toLowerCase ext \<notin> set [''webp'', ''avif'', ''jpeg'', ''jpg'', ''png''] then None
         else if front = [] \<or> toLowerChar (hd front) \<noteq> CHR ''w'' then None
         else if digits = [] \<or> rest = [] \<or> hd rest \<noteq> CHR ''-'' then None
         else if tl rest = [] \<or> CHR 0x0A \<in> set (tl rest) \<or> CHR 0x0D \<in> set (tl rest) then None
         else Some (rev (tl rest), rev digits, ext))"

text \<open>The search for the Original of a variant name, over the fixed list of extensions.\<close>

fun findOriginal :: "env \<Rightarrow> string \<Rightarrow> string list \<Rightarrow> path option" where
  "findOriginal ev basePath [] = None"
| "findOriginal ev basePath (ext # rest) =
     (let testPath = basePath @ ext
      in if fileExistsIn ev testPath then Some testPath else findOriginal ev basePath rest)"

definition immutableHeaders :: "string \<Rightarrow> (string \<times> string) list" where
  "immutableHeaders contentType =
     [(''Content-Type'', contentType),
      (''Cache-Control'', ''public, max-age=31536000, immutable'')]"

definition textResponse :: "nat \<Rightarrow> string \<Rightarrow> response" where
  "textResponse code msg = \<lparr>resp_status = code, resp_headers = [], resp_body = TextBody msg\<rparr>"

text \<open>The branch of the handler for a name of the form \<open>name-{width}w.{format}\<close>.\<close>

definition serveVariant ::
  "config \<Rightarrow> env \<Rightarrow> path \<Rightarrow> string \<Rightarrow> string \<Rightarrow> string \<Rightarrow> state \<Rightarrow> response attempt" where
  "serveVariant cfg ev relativePath basePath widthStr format s =
     (if fileExistsOut s relativePath
      then Done \<lparr>resp_status = 200, resp_headers = immutableHeaders (fileType ev relativePath),
                 resp_body = OutputFileBody relativePath\<rparr> s
      else
        (case findOriginal ev basePath [''.jpg'', ''.jpeg'', ''.png'', ''.webp'', ''.avif''] of
           None \<Rightarrow> Done (textResponse 404 ''Source image not found'') s
         | Some originalPath \<Rightarrow>
             (case optimizeOnTheFly ev originalPath (Some (parseInt widthStr)) format
                     (Num (quality cfg)) s of
                (None, s1) \<Rightarrow> Done (textResponse 500 ''Failed to process image'') s1
              | (Some (buffer, contentType), s1) \<Rightarrow>
                  if \<not> mkdirOk ev (dirOf basePath) then Threw s1
                  else Done \<lparr>resp_status = 200, resp_headers = immutableHeaders contentType,
                             resp_body = BufferBody buffer\<rparr>
                         (writeFile relativePath s1))))"

text \<open>The branch of the handler for every other image name: the query parameters decide.\<close>

definition serveQuery :: "config \<Rightarrow> env \<Rightarrow> path \<Rightarrow> request \<Rightarrow> state \<Rightarrow> response attempt" where
  "serveQuery cfg ev relativePath req s =
     (let width = (if truthy (param_w req) then Some (parseInt (the (param_w req))) else None);
          format = (case param_format req of
                      Some f \<Rightarrow> f
                    | None \<Rightarrow> (case formats cfg of f # _ \<Rightarrow> f | [] \<Rightarrow> ''webp''));
          q = (if truthy (param_q req) then parseInt (the (param_q req)) else Num (quality cfg))
      in if \<not> truthy (param_w req) \<and> \<not> truthy (param_format req) \<and> \<not> truthy (param_q req)
         then
           (if fileExistsOut s relativePath
            then Done \<lparr>resp_status = 200, resp_headers = immutableHeaders (fileType ev relativePath),
                       resp_body = OutputFileBody relativePath\<rparr> s
            else if fileExistsIn ev relativePath
            then Done \<lparr>resp_status = 200,
                       resp_headers = [(''Content-Type'', fileType ev relativePath),
                                       (''Cache-Control'', ''public, max-age=86400'')],
                       resp_body = InputFileBody relativePath\<rparr> s
            else Done (textResponse 404 ''Not found'') s)
         else
           (case optimizeOnTheFly ev relativePath width format q s of
              (None, s1) \<Rightarrow> Done (textResponse 500 ''Failed to process image'') s1
            | (Some (buffer, contentType), s1) \<Rightarrow>
                Done \<lparr>resp_status = 200,
                      resp_headers = [(''Content-Type'', contentType),
                                      (''Cache-Control'', ''public, max-age=86400''),
                                      (''X-Image-Optimized'', ''on-the-fly'')],
                      resp_body = BufferBody buffer\<rparr> s1))"

text \<open>The route handler of \<^verbatim>\<open>serverConfig.routes\<close>.\<close>

definition handleRequest :: "config \<Rightarrow> env \<Rightarrow> request \<Rightarrow> state \<Rightarrow> response attempt" where
  "handleRequest cfg ev req s =
     (let relativePath = sliceFrom (pathname req) (int (length (publicPath cfg)) + 1)
      in if relativePath = [] \<or> \<not> isImageFile relativePath
         then Done (textResponse 404 ''Not found'') s
         else
           (case variantMatch relativePath of
              Some (basePath, widthStr, format) \<Rightarrow>
                serveVariant cfg ev relativePath basePath widthStr format s
            | None \<Rightarrow> serveQuery cfg ev relativePath req s))"

text \<open>The value of a response header, if the response carries it.\<close>

definition header :: "response \<Rightarrow> string \<Rightarrow> string option" where
  "header resp name = map_of (resp_headers resp) name"

text \<open>The value an attempt returns, if it returns.\<close>

fun resultOf :: "'a attempt \<Rightarrow> 'a option" where
  "resultOf (Done x _) = Some x"
| "resultOf (Threw _) = None"

section \<open>The variant list of an Original\<close>

text \<open>
  The list \<^verbatim>\<open>processImage\<close> records for an Original of intrinsic size \<open>W\<close> x \<open>H\<close>: one
  variant per retained width and configured format, in configured order (see
  \<open>sizesLoop_variants\<close>).
\<close>

definition variantsFor :: "config \<Rightarrow> path \<Rightarrow> int \<Rightarrow> int \<Rightarrow> variant list" where
  "variantsFor cfg p W H =
     concat (map (\<lambda>tw. map (\<lambda>f. \<lparr>v_format = f, v_size = tw,
                 v_path = getOutputFilename p tw f, v_width = tw,
                 v_height = mathRound (dmul tw (ddiv H W))\<rparr>) (formats cfg))
              (filter (\<lambda>tw. tw \<le> W) (sizes cfg)))"

section \<open>Codec traces\<close>

text \<open>
  The shape of the codec calls one run of a loop adds to the trace: calls that succeeded,
  followed, only when the loop ended by an exception, by at most one call that failed.
\<close>

definition cleanTrace :: "env \<Rightarrow> bool \<Rightarrow> pipeline list \<Rightarrow> bool" where
  "cleanTrace ev thrown calls =
     (\<exists>ok bad. calls = ok @ bad \<and> (\<forall>q \<in> set ok. transform ev q \<noteq> None)
        \<and> (bad = [] \<or> (thrown \<and> (\<exists>b. bad = [b] \<and> transform ev b = None))))"

text \<open>
  \<open>tracked\<close>: the codec call \<open>c\<close> is an encode of the Original \<open>p\<close> at one of the widths
  \<open>tws\<close> into one of the formats \<open>fs\<close>, and, if it succeeded, its output file is on disk in
  \<open>s'\<close> with a modification time not earlier than \<open>c0\<close>.
\<close>

definition tracked ::
  "config \<Rightarrow> env \<Rightarrow> path \<Rightarrow> time \<Rightarrow> state \<Rightarrow> int list \<Rightarrow> string list \<Rightarrow> pipeline \<Rightarrow> bool" where
  "tracked cfg ev p c0 s' tws fs c =
     (\<exists>tw \<in> set tws. \<exists>f \<in> set fs.
        p_source c = p \<and> p_width c = Num tw \<and> p_encoder c = formatOptions f (quality cfg)
        \<and> (transform ev c \<noteq> None \<longrightarrow>
              (\<exists>t. outFiles s' (getOutputFilename p tw f) = Some t \<and> c0 \<le> t)))"

section \<open>Invariants of a batch run\<close>

text \<open>
  \<open>extends s s'\<close>: time has not run backwards, every file of \<open>s\<close> is still there in \<open>s'\<close>,
  and its modification time is the old one or not earlier than the clock of \<open>s\<close>.
  \<open>quiet\<close>: \<^verbatim>\<open>processImage\<close> would invoke no encode for the Original, because its metadata
  is unreadable or every output it would produce exists and is skipped.
  \<open>written\<close>: the file exists and, unless existing files are skipped, is not older than \<open>c\<close>.
  \<open>settled\<close>: the Original is FRESH, or it is quiet.
\<close>

definition extends :: "state \<Rightarrow> state \<Rightarrow> bool" where
  "extends s s' =
     (clock s \<le> clock s'
      \<and> (\<forall>x t. outFiles s x = Some t \<longrightarrow>
             (\<exists>t'. outFiles s' x = Some t' \<and> (t' = t \<or> clock s \<le> t'))))"

definition quiet :: "config \<Rightarrow> env \<Rightarrow> state \<Rightarrow> path \<Rightarrow> bool" where
  "quiet cfg ev s p =
     (case metadata ev p of
        None \<Rightarrow> True
      | Some md \<Rightarrow>
          (case (m_width md, m_height md) of
             (Some W, Some H) \<Rightarrow>
               W = 0 \<or> H = 0
               \<or> list_all (\<lambda>tw. W < tw
                     \<or> list_all (\<lambda>f. skipExisting cfg
                           \<and> fileExistsOut s (getOutputFilename p tw f)) (formats cfg))
                    (sizes cfg)
           | _ \<Rightarrow> True))"

definition written :: "config \<Rightarrow> time \<Rightarrow> state \<Rightarrow> path \<Rightarrow> bool" where
  "written cfg c s x = (\<exists>t. outFiles s x = Some t \<and> (skipExisting cfg \<or> c \<le> t))"

definition settled :: "config \<Rightarrow> env \<Rightarrow> state \<Rightarrow> path \<Rightarrow> bool" where
  "settled cfg ev s p = (\<not> needsProcessing ev s p \<or> quiet cfg ev s p)"

section \<open>Example scenarios\<close>

text \<open>
  A fresh process: empty manifest, empty output tree. The example world holds the images
  \<open>a/b.jpg\<close> (1000 x 500), \<open>photo.jpg\<close> (500 x 400) and \<open>wide.jpg\<close> (640 x 368); the codec
  and the file system never fail in it.
\<close>

definition freshState :: state where
  "freshState =
     \<lparr>images = Map.empty, generatedAt = 0, isProcessing = False, outTree = [],
      manifestFile = None, clock = 1000, codecCalls = [], errors = []\<rparr>"

definition exampleMetadata :: "path \<Rightarrow> imgmeta option" where
  "exampleMetadata p =
     (if p = ''a/b.jpg'' then Some \<lparr>m_width = Some 1000, m_height = Some 500, m_format = Some ''jpeg''\<rparr>
      else if p = ''photo.jpg'' then Some \<lparr>m_width = Some 500, m_height = Some 400, m_format = Some ''jpeg''\<rparr>
      else if p = ''wide.jpg'' then Some \<lparr>m_width = Some 640, m_height = Some 368, m_format = Some ''jpeg''\<rparr>
      else None)"

definition exampleEnv :: env where
  "exampleEnv =
     \<lparr>inputDirExists = True,
      outputInInput = None,
      listing = Some [''a/b.jpg'', ''photo.jpg'', ''wide.jpg''],
      inputStat = (\<lambda>p. if p \<in> set [''a/b.jpg'', ''photo.jpg'', ''wide.jpg''] then Some 900 else None),
      metadata = exampleMetadata,
      transform = (\<lambda>pl. Some []),
      mkdirOk = (\<lambda>d. True),
      manifestWriteOk = True,
      fileType = (\<lambda>p. ''image/'' @ sliceFrom p (lastIndexOf p CHR ''.'' + 1))\<rparr>"

definition exampleConfig :: config where
  "exampleConfig =
     \<lparr>publicPath = ''/optimized'', formats = [''webp''], sizes = [320, 640], quality = 80,
      generateManifest = True, keepOriginal = False, skipExisting = True\<rparr>"

text \<open>
  A state after an earlier build: \<open>a/b.jpg\<close> has one variant on disk, written at time 800
  (\<open>builtState\<close>, older than the source) or at time 950 (\<open>currentState\<close>).
\<close>

definition builtState :: state where
  "builtState =
     freshState\<lparr>images := [''a/b.jpg'' \<mapsto>
                    \<lparr>e_original = ''a/b.jpg'', e_width = 1000, e_height = 500,
                     e_variants = [\<lparr>v_format = ''webp'', v_size = 320, v_path = ''a/b-320w.webp'',
                                    v_width = 320, v_height = 160\<rparr>]\<rparr>],
                 outTree := [(''a/b-320w.webp'', 800)]\<rparr>"

definition currentState :: state where
  "currentState = builtState\<lparr>outTree := [(''a/b-320w.webp'', 950)]\<rparr>"

text \<open>A state in which a batch run is in flight.\<close>

definition busyState :: state where
  "busyState = builtState\<lparr>isProcessing := True\<rparr>"

text \<open>
  Three requests: a variant name, a query on an Original, and a query on a variant name.
\<close>

definition variantRequest :: request where
  "variantRequest = \<lparr>pathname = ''/optimized/photo-320w.webp'', param_w = None,
                      param_format = None, param_q = None\<rparr>"

definition queryRequest :: request where
  "queryRequest = \<lparr>pathname = ''/optimized/photo.jpg'', param_w = Some ''400'',
                    param_format = Some ''avif'', param_q = None\<rparr>"

definition variantQueryRequest :: request where
  "variantQueryRequest = \<lparr>pathname = ''/optimized/a/b-320w.webp'', param_w = Some ''800'',
                           param_format = None, param_q = None\<rparr>"

text \<open>The example world with a codec that fails on every 320-wide encode.\<close>

definition failingEnv :: env where
  "failingEnv = exampleEnv\<lparr>transform := (\<lambda>pl. if p_width pl = Num 320 then None else Some [])\<rparr>"

text \<open>
  The example world with the single image \<open>photo.jpg\<close>, whose modification time 2000 is
  later than the clock of \<open>freshState\<close>.
\<close>

definition futureEnv :: env where
  "futureEnv = exampleEnv\<lparr>listing := Some [''photo.jpg''], inputStat := (\<lambda>p. Some 2000)\<rparr>"

text \<open>The example world with a codec that fails on every 640-wide encode.\<close>

definition lateFailingEnv :: env where
  "lateFailingEnv = exampleEnv\<lparr>transform := (\<lambda>pl. if p_width pl = Num 640 then None else Some [])\<rparr>"

text \<open>The example world with a decoder that reads no dimensions from any file.\<close>

definition unreadableEnv :: env where
  "unreadableEnv =
     exampleEnv\<lparr>metadata := (\<lambda>p. Some \<lparr>m_width = None, m_height = None, m_format = None\<rparr>)\<rparr>"

text \<open>
  The example world with the single image \<open>photo.jpg\<close> and the output root in the directory
  \<open>optimized\<close> of the input tree, as with the input directory \<^verbatim>\<open>static\<close> and the output
  directory \<^verbatim>\<open>static/optimized\<close>. The 320-wide variant of \<open>photo.jpg\<close> is a 320 x 256 image.
\<close>

definition nestedEnv :: env where
  "nestedEnv =
     exampleEnv\<lparr>outputInInput := Some ''optimized/'', listing := Some [''photo.jpg''],
       metadata := (\<lambda>p. if p = ''optimized/photo-320w.webp''
                         then Some \<lparr>m_width = Some 320, m_height = Some 256, m_format = Some ''webp''\<rparr>
                         else exampleMetadata p)\<rparr>"

section \<open>The output tree: properties\<close>

lemma map_of_putFile: "map_of (putFile p t files) = (map_of files)(p \<mapsto> t)"
  by (induction files) (auto simp: fun_upd_twist)

lemma outFiles_outTree_update [simp]:
  "outFiles (s\<lparr>outTree := putFile p t (outTree s)\<rparr>) = (outFiles s)(p \<mapsto> t)"
  by (simp add: outFiles_def map_of_putFile)

lemma outFiles_other_updates [simp]:
  "outFiles (s\<lparr>images := a\<rparr>) = outFiles s"
  "outFiles (s\<lparr>generatedAt := b\<rparr>) = outFiles s"
  "outFiles (s\<lparr>isProcessing := c\<rparr>) = outFiles s"
  "outFiles (s\<lparr>manifestFile := d\<rparr>) = outFiles s"
  "outFiles (s\<lparr>clock := e\<rparr>) = outFiles s"
  "outFiles (s\<lparr>codecCalls := f\<rparr>) = outFiles s"
  "outFiles (s\<lparr>errors := g\<rparr>) = outFiles s"
  by (simp_all add: outFiles_def)

lemma outFiles_writeFile [simp]: "outFiles (writeFile p s) = (outFiles s)(p \<mapsto> clock s)"
  by (simp add: writeFile_def)

lemma clock_writeFile [simp]: "clock (writeFile p s) = clock s + 1"
  by (simp add: writeFile_def)

lemma inputView_outside [simp]: "outputInInput ev = None \<Longrightarrow> inputView ev s = ev"
  by (simp add: inputView_def)

lemma inputView_codec [simp]:
  "metadata (inputView ev s) = metadata ev"
  "transform (inputView ev s) = transform ev"
  "mkdirOk (inputView ev s) = mkdirOk ev"
  "inputDirExists (inputView ev s) = inputDirExists ev"
  by (simp_all add: inputView_def split: option.splits)

section \<open>Path Resolver: properties\<close>

lemma lastIndexOf_last_occurrence:
  assumes "c \<notin> set ext"
  shows "lastIndexOf (stem @ c # ext) c = int (length stem)"
proof -
  have "takeWhile (\<lambda>x. x \<noteq> c) (rev ext @ c # rev stem) = rev ext"
    using assms by (auto simp: takeWhile_tail)
  then show ?thesis
    by (simp add: lastIndexOf_def)
qed

lemma lastIndexOf_absent: "c \<notin> set s \<Longrightarrow> lastIndexOf s c = - 1"
  by (simp add: lastIndexOf_def)

lemma slice_prefix: "slice (stem @ rest) 0 (int (length stem)) = stem"
  by (simp add: slice_def relIndex_def)

text \<open>
  C7, as the code has it. For a name with an extension, that is a name \<open>stem.ext\<close> whose
  \<open>ext\<close> has no further dot, \<open>getOutputFilename\<close> returns \<open>stem-{width}w.{format}\<close>. The
  function is total: it returns a string for every input.
\<close>

theorem getOutputFilename_strips_extension:
  assumes "originalName = stem @ ''.'' @ ext" and "CHR ''.'' \<notin> set ext"
  shows "getOutputFilename originalName width format
           = stem @ ''-'' @ showInt width @ ''w.'' @ format"
proof -
  have "lastIndexOf originalName CHR ''.'' = int (length stem)"
    using assms lastIndexOf_last_occurrence [of "CHR ''.''" ext stem] by simp
  moreover have "slice originalName 0 (int (length stem)) = stem"
    using assms(1) slice_prefix [of stem "''.'' @ ext"] by simp
  ultimately show ?thesis
    by (simp add: getOutputFilename_def)
qed

theorem getOutputFilename_strips_extension_witness:
  "''a/b.jpg'' = ''a/b'' @ ''.'' @ ''jpg'' \<and> CHR ''.'' \<notin> set ''jpg''
   \<and> getOutputFilename ''a/b.jpg'' 320 ''webp'' = ''a/b-320w.webp''"
  using getOutputFilename_strips_extension [of "''a/b.jpg''" "''a/b''" "''jpg''" 320 "''webp''"]
  by (simp add: showInt_def digitChar_def)

text \<open>
  C7, as the specification states it, fails: a name without a dot loses its last character,
  since \<open>lastIndexOf\<close> returns \<open>-1\<close> and \<open>slice 0 (-1)\<close> drops one character.
\<close>

theorem getOutputFilename_noext_counterexample:
  "getOutputFilename ''noext'' 320 ''webp'' = ''noex-320w.webp''
   \<and> getOutputFilename ''noext'' 320 ''webp'' \<noteq> ''noext-320w.webp''"
  by (simp add: getOutputFilename_def slice_def lastIndexOf_def relIndex_def showInt_def
      digitChar_def)

lemma getOutputFilename_no_dot:
  "CHR ''.'' \<notin> set originalName \<Longrightarrow>
   getOutputFilename originalName width format
     = butlast originalName @ ''-'' @ showInt width @ ''w.'' @ format"
proof -
  assume "CHR ''.'' \<notin> set originalName"
  moreover have "nat (max 0 (int (length originalName) - 1)) = length originalName - 1"
    by (cases originalName) auto
  ultimately show ?thesis
    by (simp add: getOutputFilename_def lastIndexOf_absent slice_def relIndex_def
        butlast_conv_take)
qed

text \<open>
  The decimal rendering is injective and holds no letter, so the output name determines the
  width; and an output name is never the name of its Original.
\<close>

lemma digitChar_cases:
  "digitChar d \<in> set ''0123456789''"
  by (simp add: digitChar_def)

lemma digitValue_digitChar: "d < 10 \<Longrightarrow> digitValue (digitChar d) = int d"
proof -
  assume "d < 10"
  then have "d \<in> {0, 1, 2, 3, 4, 5, 6, 7, 8, 9}" by auto
  then show ?thesis
    by (auto simp: digitValue_def digitChar_def)
qed

lemma showNat_small: "n < 10 \<Longrightarrow> showNat n = [digitChar n]"
  by (subst showNat.simps) (simp del: showNat.simps)

lemma showNat_large:
  "\<not> n < 10 \<Longrightarrow> showNat n = showNat (n div 10) @ [digitChar (n mod 10)]"
  by (subst showNat.simps) (simp del: showNat.simps)

lemma showNat_digits: "set (showNat n) \<subseteq> set ''0123456789''"
proof (induction n rule: showNat.induct)
  case (1 n)
  show ?case
  proof (cases "n < 10")
    case True
    with digitChar_cases [of n] show ?thesis
      by (simp add: showNat_small del: showNat.simps)
  next
    case False
    with 1 have "set (showNat (n div 10)) \<subseteq> set ''0123456789''" by blast
    with False digitChar_cases [of "n mod 10"] show ?thesis
      by (simp add: showNat_large del: showNat.simps)
  qed
qed

lemma digitsValue_showNat: "digitsValue (showNat n) = int n"
proof (induction n rule: showNat.induct)
  case (1 n)
  show ?case
  proof (cases "n < 10")
    case True
    then show ?thesis
      by (simp add: showNat_small digitsValue_def digitValue_digitChar del: showNat.simps)
  next
    case False
    with 1 have "digitsValue (showNat (n div 10)) = int (n div 10)" by blast
    then have "digitsValue (showNat n) = 10 * int (n div 10) + int (n mod 10)"
      using False
      by (simp add: showNat_large digitsValue_def digitValue_digitChar del: showNat.simps)
    moreover have "10 * int (n div 10) + int (n mod 10) = int n"
      by (metis mult_div_mod_eq of_nat_add of_nat_mult of_nat_numeral)
    ultimately show ?thesis by (simp del: showNat.simps)
  qed
qed

lemma showNat_inj: "showNat n = showNat m \<Longrightarrow> n = m"
  using digitsValue_showNat [of n] digitsValue_showNat [of m] by simp

lemma showInt_inj: "showInt i = showInt j \<Longrightarrow> i = j"
proof -
  assume eq: "showInt i = showInt j"
  have nd: "\<And>n r. showNat n \<noteq> CHR ''-'' # r"
  proof
    fix n r
    assume "showNat n = CHR ''-'' # r"
    then have "CHR ''-'' \<in> set (showNat n)" by (simp del: showNat.simps)
    with showNat_digits [of n] show False by auto
  qed
  show ?thesis
  proof (cases "i < 0")
    case True
    show ?thesis
    proof (cases "j < 0")
      case j: True
      with True eq have "showNat (nat (- i)) = showNat (nat (- j))"
        by (simp add: showInt_def del: showNat.simps)
      from showNat_inj [OF this] True j show ?thesis by simp
    next
      case False
      with True eq nd [of "nat j" "showNat (nat (- i))"] show ?thesis
        by (simp add: showInt_def del: showNat.simps)
    qed
  next
    case False
    show ?thesis
    proof (cases "j < 0")
      case True
      with False eq nd [of "nat i" "showNat (nat (- j))"] show ?thesis
        by (simp add: showInt_def del: showNat.simps)
    next
      case j: False
      with False eq have "showNat (nat i) = showNat (nat j)"
        by (simp add: showInt_def del: showNat.simps)
      from showNat_inj [OF this] False j show ?thesis by simp
    qed
  qed
qed

lemma showInt_no_w: "CHR ''w'' \<notin> set (showInt i)"
  using showNat_digits [of "nat i"] showNat_digits [of "nat (- i)"]
  by (auto simp: showInt_def simp del: showNat.simps)

lemma getOutputFilename_width_inj:
  assumes "getOutputFilename p tw f = getOutputFilename p tw' f'"
  shows "tw = tw'"
proof -
  from assms have eq: "showInt tw @ CHR ''w'' # (''.'' @ f) = showInt tw' @ CHR ''w'' # (''.'' @ f')"
    by (simp add: getOutputFilename_def del: showNat.simps)
  have "takeWhile (\<lambda>c. c \<noteq> CHR ''w'') (showInt tw @ CHR ''w'' # (''.'' @ f)) = showInt tw"
    using showInt_no_w [of tw] by (auto simp: takeWhile_tail takeWhile_eq_all_conv simp del: showNat.simps)
  moreover have "takeWhile (\<lambda>c. c \<noteq> CHR ''w'') (showInt tw' @ CHR ''w'' # (''.'' @ f')) = showInt tw'"
    using showInt_no_w [of tw'] by (auto simp: takeWhile_tail takeWhile_eq_all_conv simp del: showNat.simps)
  ultimately have "showInt tw = showInt tw'"
    using eq by simp
  then show ?thesis by (rule showInt_inj)
qed

lemma getOutputFilename_stem:
  assumes "CHR ''.'' \<notin> set ext"
  shows "getOutputFilename (stem @ CHR ''.'' # ext) width format
           = stem @ ''-'' @ showInt width @ ''w.'' @ format"
proof -
  have "lastIndexOf (stem @ CHR ''.'' # ext) CHR ''.'' = int (length stem)"
    using assms by (rule lastIndexOf_last_occurrence)
  moreover have "slice (stem @ CHR ''.'' # ext) 0 (int (length stem)) = stem"
    by (rule slice_prefix)
  ultimately show ?thesis
    by (simp add: getOutputFilename_def)
qed

lemma getOutputFilename_not_source: "getOutputFilename p tw f \<noteq> p"
proof (cases "CHR ''.'' \<in> set p")
  case True
  then obtain stem ext where p: "p = stem @ CHR ''.'' # ext" "CHR ''.'' \<notin> set ext"
    using split_list_last by fastforce
  show ?thesis
    unfolding p(1) getOutputFilename_stem [OF p(2)] by (simp del: showNat.simps)
next
  case False
  have "length (getOutputFilename p tw f) > length p"
    unfolding getOutputFilename_no_dot [OF False] by (simp del: showNat.simps)
  then show ?thesis by auto
qed

section \<open>Staleness Detector: properties\<close>

lemma missingVariant_iff:
  "missingVariant s vs = (\<exists>v \<in> set vs. \<not> fileExistsOut s (v_path v))"
  by (induction vs) auto

text \<open>
  C4. For an Original, that is a path whose source file exists with modification time
  \<open>inputMtime\<close>, \<open>needsProcessing\<close> answers STALE (\<open>True\<close>) exactly when there is no
  manifest entry, or the entry has no variants, or the output file of some variant is
  missing, or the source is strictly newer than the output file of the first variant.
\<close>

theorem needsProcessing_iff:
  assumes "inputStat ev p = Some inputMtime"
  shows "needsProcessing ev s p =
           (case images s p of
              None \<Rightarrow> True
            | Some e \<Rightarrow>
                e_variants e = []
                \<or> (\<exists>v \<in> set (e_variants e). outFiles s (v_path v) = None)
                \<or> (\<exists>outputMtime. outFiles s (v_path (hd (e_variants e))) = Some outputMtime
                      \<and> outputMtime < inputMtime))"
proof (cases "images s p")
  case None
  then show ?thesis by (simp add: needsProcessing_def)
next
  case (Some e)
  show ?thesis
  proof (cases "e_variants e")
    case Nil
    with Some show ?thesis by (simp add: needsProcessing_def)
  next
    case (Cons v vs)
    with Some assms show ?thesis
      by (auto simp: needsProcessing_def missingVariant_iff fileExistsOut_def
          split: option.splits)
  qed
qed

theorem needsProcessing_iff_witness:
  "inputStat exampleEnv ''a/b.jpg'' = Some 900
   \<and> needsProcessing exampleEnv builtState ''a/b.jpg''
   \<and> \<not> needsProcessing exampleEnv currentState ''a/b.jpg''
   \<and> needsProcessing exampleEnv freshState ''a/b.jpg''"
  using needsProcessing_iff [of exampleEnv "''a/b.jpg''" 900 builtState]
    needsProcessing_iff [of exampleEnv "''a/b.jpg''" 900 currentState]
    needsProcessing_iff [of exampleEnv "''a/b.jpg''" 900 freshState]
  by (simp add: exampleEnv_def builtState_def currentState_def freshState_def outFiles_def)

text \<open>When the source file cannot be read, the answer is STALE as well.\<close>

lemma needsProcessing_source_missing:
  "inputStat ev p = None \<Longrightarrow> needsProcessing ev s p"
  by (auto simp: needsProcessing_def split: option.splits list.splits)

section \<open>States only grow\<close>

lemma extends_refl: "extends s s"
  by (simp add: extends_def)

lemma extends_trans:
  assumes "extends s1 s2" and "extends s2 s3"
  shows "extends s1 s3"
  unfolding extends_def
proof (intro conjI allI impI)
  show "clock s1 \<le> clock s3"
    using assms by (simp add: extends_def)
next
  fix x t
  assume "outFiles s1 x = Some t"
  with assms(1) obtain t2 where t2: "outFiles s2 x = Some t2" "t2 = t \<or> clock s1 \<le> t2"
    by (auto simp: extends_def)
  with assms(2) obtain t3 where t3: "outFiles s3 x = Some t3" "t3 = t2 \<or> clock s2 \<le> t3"
    by (auto simp: extends_def)
  from assms(1) have "clock s1 \<le> clock s2"
    by (simp add: extends_def)
  with t2 t3 show "\<exists>t'. outFiles s3 x = Some t' \<and> (t' = t \<or> clock s1 \<le> t')"
    by auto
qed

lemma extends_same:
  "outFiles s' = outFiles s \<Longrightarrow> clock s \<le> clock s' \<Longrightarrow> extends s s'"
  by (simp add: extends_def)

lemma extends_writeFile: "extends s (writeFile x s)"
  by (simp add: extends_def writeFile_def)

lemma extends_clock: "extends s s' \<Longrightarrow> clock s \<le> clock s'"
  by (simp add: extends_def)

lemma extends_exists: "extends s s' \<Longrightarrow> fileExistsOut s x \<Longrightarrow> fileExistsOut s' x"
  by (auto simp: extends_def fileExistsOut_def)

lemma formatsLoop_extends:
  "extends s (stateOf (formatsLoop cfg ev p tw th fs vs s))"
proof (induction fs arbitrary: vs s)
  case Nil
  show ?case by (simp add: extends_refl)
next
  case (Cons f fs)
  let ?name = "getOutputFilename p tw f"
  let ?v = "\<lparr>v_format = f, v_size = tw, v_path = ?name, v_width = tw, v_height = th\<rparr>"
  let ?pl = "\<lparr>p_source = p, p_width = Num tw, p_height = Num th,
              p_encoder = formatOptions f (quality cfg)\<rparr>"
  let ?s1 = "s\<lparr>codecCalls := codecCalls s @ [?pl]\<rparr>"
  have s1: "extends s ?s1"
    by (simp add: extends_same)
  have s2: "extends s (writeFile ?name ?s1)"
    using extends_trans [OF s1 extends_writeFile] .
  show ?case
    using Cons [of s "vs @ [?v]"] s1
      extends_trans [OF s2 Cons [of "writeFile ?name ?s1" "vs @ [?v]"]]
    by (auto simp: Let_def extends_refl split: option.splits)
qed

lemma sizesLoop_extends:
  "extends s (stateOf (sizesLoop cfg ev p W ratio ws vs s))"
proof (induction ws arbitrary: vs s)
  case Nil
  show ?case by (simp add: extends_refl)
next
  case (Cons tw ws)
  let ?r = "formatsLoop cfg ev p tw (mathRound (dmul tw ratio)) (formats cfg) vs s"
  have fl: "extends s (stateOf ?r)"
    by (rule formatsLoop_extends)
  show ?case
  proof (cases "W < tw")
    case True
    with Cons [of s vs] show ?thesis by simp
  next
    case False
    show ?thesis
    proof (cases ?r)
      case (Threw s')
      with False fl show ?thesis by (simp add: Let_def)
    next
      case (Done vs' s')
      with False fl extends_trans [OF _ Cons [of s' vs']] show ?thesis
        by (simp add: Let_def)
    qed
  qed
qed

lemma copyOriginal_extends: "extends s (stateOf (copyOriginal ev p s))"
  by (simp add: copyOriginal_def extends_refl extends_writeFile)

lemma generateVariants_extends:
  "extends s (stateOf (generateVariants cfg ev p W H s))"
proof -
  let ?r = "sizesLoop cfg ev p W (ddiv H W) (sizes cfg) [] s"
  have sl: "extends s (stateOf ?r)"
    by (rule sizesLoop_extends)
  show ?thesis
  proof (cases ?r)
    case (Threw s1)
    with sl show ?thesis by (simp add: generateVariants_def Let_def)
  next
    case (Done vs s1)
    let ?c = "if keepOriginal cfg then copyOriginal ev p s1 else Done () s1"
    have c: "extends s1 (stateOf ?c)"
      by (simp add: copyOriginal_extends extends_refl)
    from sl Done have "extends s s1" by simp
    from extends_trans [OF this c] have sc: "extends s (stateOf ?c)" .
    show ?thesis
    proof (cases ?c)
      case (Threw s2)
      with Done sc show ?thesis by (simp add: generateVariants_def Let_def)
    next
      case d2: (Done u s2)
      with sc have "extends s s2" by simp
      then have "extends s (s2\<lparr>images := (images s2)(p \<mapsto>
                             \<lparr>e_original = p, e_width = W,
                              e_height = H, e_variants = vs\<rparr>)\<rparr>)"
        by (simp add: extends_def)
      with Done d2 show ?thesis by (simp add: generateVariants_def Let_def)
    qed
  qed
qed

lemma extends_logError: "extends s s' \<Longrightarrow> extends s (logError r s')"
  by (simp add: extends_def logError_def)

lemma processImage_extends:
  "extends s (stateOf (processImage cfg ev p s))"
proof -
  have g: "\<And>W H. extends s (stateOf (generateVariants cfg ev p W H s))"
    by (rule generateVariants_extends)
  have "\<And>W H. extends s (stateOf (case generateVariants cfg ev p W H s of
                       Threw s' \<Rightarrow> Done () (logError (ProcessFailed p) s')
                     | Done _ s' \<Rightarrow> Done () s'))"
    subgoal for W H
      using g [of W H] by (cases "generateVariants cfg ev p W H s") (simp_all add: extends_logError)
    done
  then show ?thesis
    by (auto simp: processImage_def extends_refl extends_logError split: option.splits)
qed

lemma processFiles_extends:
  "extends s (stateOf (processFiles cfg ev files s))"
proof (induction files arbitrary: s)
  case Nil
  show ?case by (simp add: extends_refl)
next
  case (Cons f files)
  have p: "extends s (stateOf (processImage cfg (inputView ev s) f s))"
    by (rule processImage_extends)
  show ?case
  proof (cases "processImage cfg (inputView ev s) f s")
    case (Threw s')
    with p show ?thesis by simp
  next
    case (Done u s')
    with p extends_trans [OF _ Cons [of s']] show ?thesis by simp
  qed
qed

section \<open>Variant Generator: properties\<close>

lemma formatsLoop_frame:
  "images (stateOf (formatsLoop cfg ev p tw th fs vs s)) = images s
   \<and> errors (stateOf (formatsLoop cfg ev p tw th fs vs s)) = errors s
   \<and> isProcessing (stateOf (formatsLoop cfg ev p tw th fs vs s)) = isProcessing s
   \<and> generatedAt (stateOf (formatsLoop cfg ev p tw th fs vs s)) = generatedAt s
   \<and> manifestFile (stateOf (formatsLoop cfg ev p tw th fs vs s)) = manifestFile s"
  by (induction fs arbitrary: vs s) (auto simp: Let_def writeFile_def split: option.splits)

lemma sizesLoop_frame:
  "images (stateOf (sizesLoop cfg ev p W ratio ws vs s)) = images s
   \<and> errors (stateOf (sizesLoop cfg ev p W ratio ws vs s)) = errors s
   \<and> isProcessing (stateOf (sizesLoop cfg ev p W ratio ws vs s)) = isProcessing s
   \<and> generatedAt (stateOf (sizesLoop cfg ev p W ratio ws vs s)) = generatedAt s
   \<and> manifestFile (stateOf (sizesLoop cfg ev p W ratio ws vs s)) = manifestFile s"
proof (induction ws arbitrary: vs s)
  case Nil
  then show ?case by simp
next
  case (Cons tw ws)
  show ?case
  proof (cases "W < tw")
    case True
    then show ?thesis using Cons by simp
  next
    case False
    let ?r = "formatsLoop cfg ev p tw (mathRound (dmul tw ratio)) (formats cfg) vs s"
    show ?thesis
    proof (cases ?r)
      case (Done vs' s')
      then show ?thesis
        using False Cons [of vs' s'] formatsLoop_frame [of cfg ev p tw "mathRound (dmul tw ratio)" "formats cfg" vs s]
        by simp
    next
      case (Threw s')
      then show ?thesis
        using False formatsLoop_frame [of cfg ev p tw "mathRound (dmul tw ratio)" "formats cfg" vs s]
        by simp
    qed
  qed
qed

lemma formatsLoop_variants:
  "formatsLoop cfg ev p tw th fs vs s = Done vs' s' \<Longrightarrow>
   vs' = vs @ map (\<lambda>f. \<lparr>v_format = f, v_size = tw, v_path = getOutputFilename p tw f,
                         v_width = tw, v_height = th\<rparr>) fs"
proof (induction fs arbitrary: vs s)
  case Nil
  then show ?case by simp
next
  case (Cons f fs)
  let ?v = "\<lparr>v_format = f, v_size = tw, v_path = getOutputFilename p tw f,
             v_width = tw, v_height = th\<rparr>"
  from Cons.prems obtain s1 where "formatsLoop cfg ev p tw th fs (vs @ [?v]) s1 = Done vs' s'"
    by (auto simp: Let_def split: option.splits if_splits)
  from Cons.IH [OF this] show ?case by simp
qed

lemma sizesLoop_variants:
  "sizesLoop cfg ev p W ratio ws vs s = Done vs' s' \<Longrightarrow>
   vs' = vs @ concat (map (\<lambda>tw. map (\<lambda>f. \<lparr>v_format = f, v_size = tw,
                 v_path = getOutputFilename p tw f, v_width = tw,
                 v_height = mathRound (dmul tw ratio)\<rparr>) (formats cfg))
              (filter (\<lambda>tw. tw \<le> W) ws))"
proof (induction ws arbitrary: vs s)
  case Nil
  then show ?case by simp
next
  case (Cons tw ws)
  show ?case
  proof (cases "W < tw")
    case True
    then show ?thesis using Cons by simp
  next
    case False
    then obtain vs1 s1 where
      fl: "formatsLoop cfg ev p tw (mathRound (dmul tw ratio)) (formats cfg) vs s = Done vs1 s1"
      and sl: "sizesLoop cfg ev p W ratio ws vs1 s1 = Done vs' s'"
      using Cons.prems by (auto simp: Let_def split: attempt.splits)
    show ?thesis
      using False formatsLoop_variants [OF fl] Cons.IH [OF sl] by simp
  qed
qed

lemma copyOriginal_frame:
  "images (stateOf (copyOriginal ev p s)) = images s
   \<and> errors (stateOf (copyOriginal ev p s)) = errors s"
  by (simp add: copyOriginal_def writeFile_def)

lemma generateVariants_Done:
  assumes "generateVariants cfg ev p W H s = Done u s'"
  shows "errors s' = errors s
         \<and> images s' = (images s)(p \<mapsto> \<lparr>e_original = p, e_width = W, e_height = H,
                                          e_variants = variantsFor cfg p W H\<rparr>)"
proof -
  from assms obtain vs s1 where
    sl: "sizesLoop cfg ev p W (ddiv H W) (sizes cfg) [] s = Done vs s1"
    by (auto simp: generateVariants_def Let_def split: attempt.splits)
  have vs: "vs = variantsFor cfg p W H"
    using sizesLoop_variants [OF sl] by (simp add: variantsFor_def)
  have fr: "images s1 = images s \<and> errors s1 = errors s"
    using sizesLoop_frame [of cfg ev p W "ddiv H W" "sizes cfg" "[]" s] sl by simp
  show ?thesis
  proof (cases "keepOriginal cfg")
    case False
    with assms sl vs fr show ?thesis
      by (auto simp: generateVariants_def Let_def)
  next
    case True
    with assms sl obtain s2 where c: "copyOriginal ev p s1 = Done () s2"
      by (auto simp: generateVariants_def Let_def split: attempt.splits)
    then have "images s2 = images s1 \<and> errors s2 = errors s1"
      using copyOriginal_frame [of ev p s1] by simp
    with True assms sl vs fr c show ?thesis
      by (auto simp: generateVariants_def Let_def)
  qed
qed

lemma generateVariants_Threw:
  assumes "generateVariants cfg ev p W H s = Threw s'"
  shows "errors s' = errors s \<and> images s' = images s"
proof (cases "sizesLoop cfg ev p W (ddiv H W) (sizes cfg) [] s")
  case (Threw s1)
  with assms have "s' = s1" by (simp add: generateVariants_def Let_def)
  with Threw sizesLoop_frame [of cfg ev p W "ddiv H W" "sizes cfg" "[]" s] show ?thesis by simp
next
  case (Done vs s1)
  have fr: "images s1 = images s \<and> errors s1 = errors s"
    using sizesLoop_frame [of cfg ev p W "ddiv H W" "sizes cfg" "[]" s] Done by simp
  from assms Done have k: "keepOriginal cfg" and c: "copyOriginal ev p s1 = Threw s'"
    by (auto simp: generateVariants_def Let_def split: attempt.splits if_splits)
  from c copyOriginal_frame [of ev p s1] fr show ?thesis by simp
qed

lemma processImage_threw_iff:
  "threw (processImage cfg ev p s) = (\<not> mkdirOk ev (dirOf p))"
  by (auto simp: processImage_def split: option.splits attempt.splits)

lemma processImage_success:
  assumes "\<not> threw (processImage cfg ev p s)"
    and "errors (stateOf (processImage cfg ev p s)) = errors s"
  shows "\<exists>md W H. metadata ev p = Some md \<and> m_width md = Some W \<and> m_height md = Some H
           \<and> W \<noteq> 0 \<and> H \<noteq> 0
           \<and> images (stateOf (processImage cfg ev p s))
               = (images s)(p \<mapsto> \<lparr>e_original = p, e_width = W, e_height = H,
                                     e_variants = variantsFor cfg p W H\<rparr>)"
proof -
  from assms(1) have mk: "mkdirOk ev (dirOf p)"
    by (simp add: processImage_threw_iff)
  from assms(2) mk obtain md where md: "metadata ev p = Some md"
    by (cases "metadata ev p") (auto simp: processImage_def logError_def)
  from assms(2) mk md obtain W H where wh: "m_width md = Some W" "m_height md = Some H"
    by (cases "m_width md"; cases "m_height md") (auto simp: processImage_def logError_def)
  from assms(2) mk md wh have nz: "W \<noteq> 0" "H \<noteq> 0"
    by (auto simp: processImage_def logError_def split: if_splits)
  show ?thesis
  proof (cases "generateVariants cfg ev p W H s")
    case (Threw s')
    with generateVariants_Threw [OF Threw] assms(2) mk md wh nz show ?thesis
      by (auto simp: processImage_def logError_def)
  next
    case (Done u s')
    with generateVariants_Done [OF Done] mk md wh nz show ?thesis
      by (auto simp: processImage_def)
  qed
qed

subsection \<open>The encodes of a run\<close>

lemma tracked_mono:
  assumes "tracked cfg ev p c0 s1 tws fs c" and "extends s1 s2" and "c0 \<le> clock s1"
    and "set tws \<subseteq> set tws'" and "set fs \<subseteq> set fs'"
  shows "tracked cfg ev p c0 s2 tws' fs' c"
proof -
  from assms(1) obtain tw f where
    h: "tw \<in> set tws" "f \<in> set fs" "p_source c = p" "p_width c = Num tw"
       "p_encoder c = formatOptions f (quality cfg)"
       "transform ev c \<noteq> None \<longrightarrow>
          (\<exists>t. outFiles s1 (getOutputFilename p tw f) = Some t \<and> c0 \<le> t)"
    unfolding tracked_def by blast
  have "transform ev c \<noteq> None \<longrightarrow>
          (\<exists>t. outFiles s2 (getOutputFilename p tw f) = Some t \<and> c0 \<le> t)"
  proof
    assume "transform ev c \<noteq> None"
    with h(6) obtain t where t: "outFiles s1 (getOutputFilename p tw f) = Some t" "c0 \<le> t"
      by blast
    with assms(2) obtain t' where "outFiles s2 (getOutputFilename p tw f) = Some t'"
      "t' = t \<or> clock s1 \<le> t'"
      by (auto simp: extends_def)
    with t(2) assms(3) show "\<exists>t. outFiles s2 (getOutputFilename p tw f) = Some t \<and> c0 \<le> t"
      by auto
  qed
  with h(1-5) assms(4,5) show ?thesis
    unfolding tracked_def by blast
qed

lemma formatsLoop_calls:
  "c0 \<le> clock s \<Longrightarrow>
   \<exists>calls. codecCalls (stateOf (formatsLoop cfg ev p tw th fs vs s)) = codecCalls s @ calls
     \<and> (\<forall>c \<in> set calls.
           tracked cfg ev p c0 (stateOf (formatsLoop cfg ev p tw th fs vs s)) [tw] fs c)"
proof (induction fs arbitrary: vs s)
  case Nil
  show ?case by simp
next
  case (Cons f fs)
  let ?name = "getOutputFilename p tw f"
  let ?v = "\<lparr>v_format = f, v_size = tw, v_path = ?name, v_width = tw, v_height = th\<rparr>"
  let ?pl = "\<lparr>p_source = p, p_width = Num tw, p_height = Num th,
              p_encoder = formatOptions f (quality cfg)\<rparr>"
  let ?s1 = "s\<lparr>codecCalls := codecCalls s @ [?pl]\<rparr>"
  let ?s2 = "writeFile ?name ?s1"
  let ?R = "formatsLoop cfg ev p tw th (f # fs) vs s"
  consider (skip) "skipExisting cfg \<and> fileExistsOut s ?name"
    | (nodir) "\<not> (skipExisting cfg \<and> fileExistsOut s ?name)" "\<not> mkdirOk ev (dirOf ?name)"
    | (fail) "\<not> (skipExisting cfg \<and> fileExistsOut s ?name)" "mkdirOk ev (dirOf ?name)"
        "transform ev ?pl = None"
    | (ok) buf where "\<not> (skipExisting cfg \<and> fileExistsOut s ?name)" "mkdirOk ev (dirOf ?name)"
        "transform ev ?pl = Some buf"
    by (cases "transform ev ?pl") auto
  then show ?case
  proof cases
    case skip
    then have eq: "?R = formatsLoop cfg ev p tw th fs (vs @ [?v]) s"
      by (simp add: Let_def)
    from Cons.IH [OF Cons.prems, of "vs @ [?v]"] obtain calls where
      c: "codecCalls (stateOf ?R) = codecCalls s @ calls"
         "\<forall>c \<in> set calls. tracked cfg ev p c0 (stateOf ?R) [tw] fs c"
      unfolding eq by blast
    have "\<forall>c \<in> set calls. tracked cfg ev p c0 (stateOf ?R) [tw] (f # fs) c"
      using c(2) tracked_mono [OF _ extends_refl] Cons.prems
        formatsLoop_extends [of s cfg ev p tw th "f # fs" vs]
      by (meson extends_clock order_trans set_subset_Cons subset_refl)
    with c(1) show ?thesis by blast
  next
    case nodir
    then have "?R = Threw s"
      by (auto simp: Let_def)
    then show ?thesis by simp
  next
    case fail
    then have "?R = Threw ?s1"
      by (auto simp: Let_def)
    moreover have "tracked cfg ev p c0 ?s1 [tw] (f # fs) ?pl"
      using fail(3) by (simp add: tracked_def)
    ultimately show ?thesis by simp
  next
    case ok
    then have eq: "?R = formatsLoop cfg ev p tw th fs (vs @ [?v]) ?s2"
      by (auto simp: Let_def)
    have c2: "c0 \<le> clock ?s2"
      using Cons.prems by simp
    from Cons.IH [OF c2, of "vs @ [?v]"] obtain calls where
      c: "codecCalls (stateOf ?R) = codecCalls ?s2 @ calls"
         "\<forall>c \<in> set calls. tracked cfg ev p c0 (stateOf ?R) [tw] fs c"
      unfolding eq by blast
    have e: "extends ?s2 (stateOf ?R)"
      unfolding eq by (rule formatsLoop_extends)
    have "tracked cfg ev p c0 ?s2 [tw] [f] ?pl"
      using Cons.prems by (simp add: tracked_def)
    from tracked_mono [OF this e c2, of "[tw]" "f # fs"]
    have hd: "tracked cfg ev p c0 (stateOf ?R) [tw] (f # fs) ?pl"
      by simp
    have tl: "\<forall>c \<in> set calls. tracked cfg ev p c0 (stateOf ?R) [tw] (f # fs) c"
    proof
      fix c
      assume "c \<in> set calls"
      with c(2) have "tracked cfg ev p c0 (stateOf ?R) [tw] fs c" by blast
      from tracked_mono [OF this extends_refl, of "[tw]" "f # fs"] e c2
      show "tracked cfg ev p c0 (stateOf ?R) [tw] (f # fs) c"
        using extends_clock by fastforce
    qed
    have "codecCalls (stateOf ?R) = codecCalls s @ ?pl # calls"
      using c(1) by (simp add: writeFile_def)
    with hd tl show ?thesis by auto
  qed
qed


lemma sizesLoop_calls:
  "c0 \<le> clock s \<Longrightarrow>
   \<exists>calls. codecCalls (stateOf (sizesLoop cfg ev p W ratio ws vs s)) = codecCalls s @ calls
     \<and> (\<forall>c \<in> set calls.
           tracked cfg ev p c0 (stateOf (sizesLoop cfg ev p W ratio ws vs s))
             (filter (\<lambda>tw. tw \<le> W) ws) (formats cfg) c)"
proof (induction ws arbitrary: vs s)
  case Nil
  show ?case by simp
next
  case (Cons tw ws)
  let ?R = "sizesLoop cfg ev p W ratio (tw # ws) vs s"
  show ?case
  proof (cases "W < tw")
    case True
    with Cons.IH [OF Cons.prems, of vs] show ?thesis by simp
  next
    case False
    let ?F = "formatsLoop cfg ev p tw (mathRound (dmul tw ratio)) (formats cfg) vs s"
    from formatsLoop_calls [OF Cons.prems, of cfg ev p tw "mathRound (dmul tw ratio)" "formats cfg" vs]
    obtain calls1 where
      c1: "codecCalls (stateOf ?F) = codecCalls s @ calls1"
          "\<forall>c \<in> set calls1. tracked cfg ev p c0 (stateOf ?F) [tw] (formats cfg) c"
      by blast
    have e1: "extends s (stateOf ?F)"
      by (rule formatsLoop_extends)
    then have k1: "c0 \<le> clock (stateOf ?F)"
      using Cons.prems extends_clock by fastforce
    have sub: "set [tw] \<subseteq> set (filter (\<lambda>tw. tw \<le> W) (tw # ws))"
      using False by simp
    show ?thesis
    proof (cases ?F)
      case (Threw s')
      then have eq: "?R = Threw s'"
        using False by (simp add: Let_def)
      have "\<forall>c \<in> set calls1. tracked cfg ev p c0 s'
              (filter (\<lambda>tw. tw \<le> W) (tw # ws)) (formats cfg) c"
      proof
        fix c
        assume "c \<in> set calls1"
        with c1(2) Threw have "tracked cfg ev p c0 s' [tw] (formats cfg) c" by simp
        from tracked_mono [OF this extends_refl _ sub subset_refl] k1 Threw
        show "tracked cfg ev p c0 s' (filter (\<lambda>tw. tw \<le> W) (tw # ws)) (formats cfg) c"
          by simp
      qed
      with c1(1) Threw eq show ?thesis by simp
    next
      case (Done vs' s')
      then have eq: "?R = sizesLoop cfg ev p W ratio ws vs' s'"
        using False by (simp add: Let_def)
      from k1 Done have k': "c0 \<le> clock s'" by simp
      from Cons.IH [OF k', of vs'] obtain calls2 where
        c2: "codecCalls (stateOf ?R) = codecCalls s' @ calls2"
            "\<forall>c \<in> set calls2. tracked cfg ev p c0 (stateOf ?R)
               (filter (\<lambda>tw. tw \<le> W) ws) (formats cfg) c"
        unfolding eq by blast
      have e2: "extends s' (stateOf ?R)"
        unfolding eq by (rule sizesLoop_extends)
      have a: "\<forall>c \<in> set calls1. tracked cfg ev p c0 (stateOf ?R)
              (filter (\<lambda>tw. tw \<le> W) (tw # ws)) (formats cfg) c"
      proof
        fix c
        assume "c \<in> set calls1"
        with c1(2) Done have "tracked cfg ev p c0 s' [tw] (formats cfg) c" by simp
        from tracked_mono [OF this e2 k' sub subset_refl]
        show "tracked cfg ev p c0 (stateOf ?R) (filter (\<lambda>tw. tw \<le> W) (tw # ws)) (formats cfg) c" .
      qed
      have b: "\<forall>c \<in> set calls2. tracked cfg ev p c0 (stateOf ?R)
              (filter (\<lambda>tw. tw \<le> W) (tw # ws)) (formats cfg) c"
      proof
        fix c
        assume "c \<in> set calls2"
        with c2(2) have t: "tracked cfg ev p c0 (stateOf ?R)
               (filter (\<lambda>tw. tw \<le> W) ws) (formats cfg) c" by blast
        have k'': "c0 \<le> clock (stateOf ?R)"
          using e2 k' extends_clock by fastforce
        have sub2: "set (filter (\<lambda>tw. tw \<le> W) ws) \<subseteq> set (filter (\<lambda>tw. tw \<le> W) (tw # ws))"
          by auto
        from tracked_mono [OF t extends_refl k'' sub2 subset_refl]
        show "tracked cfg ev p c0 (stateOf ?R) (filter (\<lambda>tw. tw \<le> W) (tw # ws)) (formats cfg) c" .
      qed
      from c1(1) Done c2(1) have "codecCalls (stateOf ?R) = codecCalls s @ calls1 @ calls2"
        by simp
      with a b show ?thesis by auto
    qed
  qed
qed

lemma processImage_calls:
  assumes "metadata ev p = Some md" and "m_width md = Some W"
  shows "\<exists>calls. codecCalls (stateOf (processImage cfg ev p s)) = codecCalls s @ calls
     \<and> (\<forall>c \<in> set calls.
           tracked cfg ev p (clock s) (stateOf (processImage cfg ev p s))
             (filter (\<lambda>tw. tw \<le> W) (sizes cfg)) (formats cfg) c)"
proof (cases "mkdirOk ev (dirOf p) \<and> (\<exists>H. m_height md = Some H \<and> W \<noteq> 0 \<and> H \<noteq> 0)")
  case False
  with assms have "codecCalls (stateOf (processImage cfg ev p s)) = codecCalls s"
    by (auto simp: processImage_def logError_def split: option.splits)
  then show ?thesis by simp
next
  case True
  then obtain H where h: "mkdirOk ev (dirOf p)" "m_height md = Some H" "W \<noteq> 0" "H \<noteq> 0"
    by blast
  let ?S = "sizesLoop cfg ev p W (ddiv H W) (sizes cfg) [] s"
  let ?G = "generateVariants cfg ev p W H s"
  let ?P = "processImage cfg ev p s"
  from sizesLoop_calls [of "clock s" s cfg ev p W "ddiv H W" "sizes cfg" "[]"] obtain calls where
    c: "codecCalls (stateOf ?S) = codecCalls s @ calls"
       "\<forall>c \<in> set calls. tracked cfg ev p (clock s) (stateOf ?S)
             (filter (\<lambda>tw. tw \<le> W) (sizes cfg)) (formats cfg) c"
    by auto
  have k: "clock s \<le> clock (stateOf ?S)"
    using sizesLoop_extends [of s cfg ev p W "ddiv H W" "sizes cfg" "[]"] by (rule extends_clock)
  have sg: "extends (stateOf ?S) (stateOf ?G) \<and> codecCalls (stateOf ?G) = codecCalls (stateOf ?S)"
  proof (cases ?S)
    case (Threw s1)
    then show ?thesis by (simp add: generateVariants_def extends_refl)
  next
    case (Done vs s1)
    then show ?thesis
      by (auto simp: generateVariants_def copyOriginal_def extends_refl extends_def writeFile_def)
  qed
  have pg: "extends (stateOf ?G) (stateOf ?P) \<and> codecCalls (stateOf ?P) = codecCalls (stateOf ?G)"
    using assms h by (cases ?G) (simp_all add: processImage_def logError_def extends_def)
  from sg pg have e: "extends (stateOf ?S) (stateOf ?P)"
    using extends_trans by blast
  have "\<forall>c \<in> set calls. tracked cfg ev p (clock s) (stateOf ?P)
             (filter (\<lambda>tw. tw \<le> W) (sizes cfg)) (formats cfg) c"
  proof
    fix c
    assume "c \<in> set calls"
    with c(2) have "tracked cfg ev p (clock s) (stateOf ?S)
             (filter (\<lambda>tw. tw \<le> W) (sizes cfg)) (formats cfg) c" by blast
    from tracked_mono [OF this e k subset_refl subset_refl]
    show "tracked cfg ev p (clock s) (stateOf ?P)
             (filter (\<lambda>tw. tw \<le> W) (sizes cfg)) (formats cfg) c" .
  qed
  with c(1) sg pg show ?thesis by simp
qed

subsection \<open>The files a run touches\<close>

lemma formatsLoop_files:
  "outFiles (stateOf (formatsLoop cfg ev p tw th fs vs s)) x \<noteq> outFiles s x \<Longrightarrow>
   \<exists>f \<in> set fs. x = getOutputFilename p tw f"
proof (induction fs arbitrary: vs s)
  case Nil
  then show ?case by simp
next
  case (Cons f fs)
  let ?name = "getOutputFilename p tw f"
  let ?v = "\<lparr>v_format = f, v_size = tw, v_path = ?name, v_width = tw, v_height = th\<rparr>"
  let ?pl = "\<lparr>p_source = p, p_width = Num tw, p_height = Num th,
              p_encoder = formatOptions f (quality cfg)\<rparr>"
  let ?s1 = "s\<lparr>codecCalls := codecCalls s @ [?pl]\<rparr>"
  let ?s2 = "writeFile ?name ?s1"
  let ?R = "formatsLoop cfg ev p tw th (f # fs) vs s"
  consider (skip) "skipExisting cfg \<and> fileExistsOut s ?name"
    | (nodir) "\<not> (skipExisting cfg \<and> fileExistsOut s ?name)" "\<not> mkdirOk ev (dirOf ?name)"
    | (fail) "\<not> (skipExisting cfg \<and> fileExistsOut s ?name)" "mkdirOk ev (dirOf ?name)"
        "transform ev ?pl = None"
    | (ok) buf where "\<not> (skipExisting cfg \<and> fileExistsOut s ?name)" "mkdirOk ev (dirOf ?name)"
        "transform ev ?pl = Some buf"
    by (cases "transform ev ?pl") auto
  then show ?case
  proof cases
    case skip
    then have "?R = formatsLoop cfg ev p tw th fs (vs @ [?v]) s"
      by (simp add: Let_def)
    with Cons.prems Cons.IH [of "vs @ [?v]" s] show ?thesis by auto
  next
    case nodir
    then have "?R = Threw s"
      by (auto simp: Let_def)
    with Cons.prems show ?thesis by simp
  next
    case fail
    then have "?R = Threw ?s1"
      by (auto simp: Let_def)
    with Cons.prems show ?thesis by simp
  next
    case ok0: ok
    then have ok: "?R = formatsLoop cfg ev p tw th fs (vs @ [?v]) ?s2"
      by (auto simp: Let_def)
    show ?thesis
    proof (cases "x = ?name")
      case True
      then show ?thesis by simp
    next
      case False
      then have "outFiles ?s2 x = outFiles s x" by simp
      with Cons.prems ok Cons.IH [of "vs @ [?v]" ?s2] show ?thesis by auto
    qed
  qed
qed

lemma sizesLoop_files:
  "outFiles (stateOf (sizesLoop cfg ev p W ratio ws vs s)) x \<noteq> outFiles s x \<Longrightarrow>
   \<exists>tw \<in> set ws. tw \<le> W \<and> (\<exists>f \<in> set (formats cfg). x = getOutputFilename p tw f)"
proof (induction ws arbitrary: vs s)
  case Nil
  then show ?case by simp
next
  case (Cons tw ws)
  let ?R = "sizesLoop cfg ev p W ratio (tw # ws) vs s"
  let ?F = "formatsLoop cfg ev p tw (mathRound (dmul tw ratio)) (formats cfg) vs s"
  show ?case
  proof (cases "W < tw")
    case True
    with Cons.prems Cons.IH [of vs s] show ?thesis by auto
  next
    case False
    have f: "outFiles (stateOf ?F) x \<noteq> outFiles s x \<Longrightarrow>
               \<exists>f \<in> set (formats cfg). x = getOutputFilename p tw f"
      by (rule formatsLoop_files)
    show ?thesis
    proof (cases ?F)
      case (Threw s')
      with False have "stateOf ?R = stateOf ?F" by (simp add: Let_def)
      with Cons.prems f False show ?thesis by auto
    next
      case (Done vs' s')
      with False have eq: "?R = sizesLoop cfg ev p W ratio ws vs' s'" by (simp add: Let_def)
      show ?thesis
      proof (cases "outFiles s' x = outFiles s x")
        case True
        with Cons.prems eq Cons.IH [of vs' s'] show ?thesis by auto
      next
        case diff: False
        with f Done False show ?thesis by auto
      qed
    qed
  qed
qed

lemma processImage_files:
  assumes "metadata ev p = Some md" and "m_width md = Some W"
    and "outFiles (stateOf (processImage cfg ev p s)) x \<noteq> outFiles s x"
  shows "(x = p \<and> keepOriginal cfg)
         \<or> (\<exists>tw \<in> set (sizes cfg). tw \<le> W
               \<and> (\<exists>f \<in> set (formats cfg). x = getOutputFilename p tw f))"
proof -
  from assms have h: "mkdirOk ev (dirOf p)"
    by (cases "mkdirOk ev (dirOf p)") (auto simp: processImage_def)
  from assms h obtain H where hh: "m_height md = Some H" "W \<noteq> 0" "H \<noteq> 0"
    by (cases "m_height md") (auto simp: processImage_def logError_def split: if_splits)
  let ?S = "sizesLoop cfg ev p W (ddiv H W) (sizes cfg) [] s"
  let ?G = "generateVariants cfg ev p W H s"
  have pg: "outFiles (stateOf (processImage cfg ev p s)) = outFiles (stateOf ?G)"
    using assms(1,2) h hh by (cases ?G) (simp_all add: processImage_def logError_def)
  have gs: "outFiles (stateOf ?G) x = outFiles (stateOf ?S) x \<or> (x = p \<and> keepOriginal cfg)"
  proof (cases ?S)
    case (Threw s1)
    then show ?thesis by (simp add: generateVariants_def)
  next
    case (Done vs s1)
    then show ?thesis
      by (auto simp: generateVariants_def copyOriginal_def)
  qed
  show ?thesis
  proof (cases "x = p \<and> keepOriginal cfg")
    case True
    then show ?thesis by simp
  next
    case False
    with gs pg assms(3) have "outFiles (stateOf ?S) x \<noteq> outFiles s x" by simp
    from sizesLoop_files [OF this] show ?thesis by simp
  qed
qed

subsection \<open>What a run records\<close>

text \<open>Evaluating the example scenarios.\<close>

lemmas run_defs =
  processImage_def generateVariants_def copyOriginal_def Let_def dirOf_def slice_def
  lastIndexOf_def relIndex_def getOutputFilename_def showInt_def digitChar_def
  fileExistsOut_def fileExistsIn_def writeFile_def logError_def formatOptions_def
  mathRound_def dmul_def ddiv_def toDouble_def roundPos_def roundHalfEven_def
  exampleConfig_def exampleEnv_def exampleMetadata_def freshState_def

lemma example_photo_run:
  "\<not> threw (processImage exampleConfig exampleEnv ''photo.jpg'' freshState)"
  "errors (stateOf (processImage exampleConfig exampleEnv ''photo.jpg'' freshState)) = []"
  "images (stateOf (processImage exampleConfig exampleEnv ''photo.jpg'' freshState)) ''photo.jpg''
     = Some \<lparr>e_original = ''photo.jpg'', e_width = 500, e_height = 400,
             e_variants = [\<lparr>v_format = ''webp'', v_size = 320, v_path = ''photo-320w.webp'',
                            v_width = 320, v_height = 256\<rparr>]\<rparr>"
  by (simp_all add: run_defs)

lemma example_ab_run:
  "\<not> threw (processImage exampleConfig exampleEnv ''a/b.jpg'' freshState)"
  "errors (stateOf (processImage exampleConfig exampleEnv ''a/b.jpg'' freshState)) = []"
  "images (stateOf (processImage exampleConfig exampleEnv ''a/b.jpg'' freshState)) ''a/b.jpg''
     = Some \<lparr>e_original = ''a/b.jpg'', e_width = 1000, e_height = 500,
             e_variants = [\<lparr>v_format = ''webp'', v_size = 320, v_path = ''a/b-320w.webp'',
                            v_width = 320, v_height = 160\<rparr>,
                           \<lparr>v_format = ''webp'', v_size = 640, v_path = ''a/b-640w.webp'',
                            v_width = 640, v_height = 320\<rparr>]\<rparr>"
  by (simp_all add: run_defs)

lemma example_photo_trace:
  "codecCalls (stateOf (processImage exampleConfig exampleEnv ''photo.jpg'' freshState))
     = [\<lparr>p_source = ''photo.jpg'', p_width = Num 320, p_height = Num 256, p_encoder = Webp (Num 80)\<rparr>]"
  "outTree (stateOf (processImage exampleConfig exampleEnv ''photo.jpg'' freshState))
     = [(''photo-320w.webp'', 1000)]"
  by code_simp+

text \<open>
  C3. When \<^verbatim>\<open>processImage\<close> succeeds (it returns and reports no error), the manifest entry
  it stores carries the intrinsic width read from the metadata, and every variant of the
  entry has a width that is one of the configured sizes and is at most that intrinsic width.
  A configured width greater than the intrinsic width \<open>W\<close> is skipped entirely, whether the
  call succeeds or not: every encode the call invokes is an encode of this Original at a
  configured width that is at most \<open>W\<close>, and no output file named for a width greater than
  \<open>W\<close> is created or modified.
\<close>

theorem processImage_no_upscaling:
  "(\<not> threw (processImage cfg ev p s) \<and> errors (stateOf (processImage cfg ev p s)) = errors s
      \<longrightarrow> (\<exists>e md. images (stateOf (processImage cfg ev p s)) p = Some e
             \<and> metadata ev p = Some md \<and> m_width md = Some (e_width e)
             \<and> (\<forall>v \<in> set (e_variants e). v_width v \<le> e_width e \<and> v_width v \<in> set (sizes cfg)
                    \<and> v_path v = getOutputFilename p (v_width v) (v_format v))))
   \<and> (metadata ev p = Some md \<and> m_width md = Some W
      \<longrightarrow> (\<exists>calls. codecCalls (stateOf (processImage cfg ev p s)) = codecCalls s @ calls
             \<and> (\<forall>c \<in> set calls. p_source c = p
                    \<and> (\<exists>tw \<in> set (sizes cfg). tw \<le> W \<and> p_width c = Num tw)))
          \<and> (\<forall>tw f. W < tw \<longrightarrow>
                 outFiles (stateOf (processImage cfg ev p s)) (getOutputFilename p tw f)
                   = outFiles s (getOutputFilename p tw f)))"
proof (intro conjI impI)
  assume a: "\<not> threw (processImage cfg ev p s)
             \<and> errors (stateOf (processImage cfg ev p s)) = errors s"
  then have a1: "\<not> threw (processImage cfg ev p s)"
    and a2: "errors (stateOf (processImage cfg ev p s)) = errors s"
    by simp_all
  from processImage_success [OF a1 a2] obtain md' W' H' where
    md: "metadata ev p = Some md'" "m_width md' = Some W'"
    and im: "images (stateOf (processImage cfg ev p s))
               = (images s)(p \<mapsto> \<lparr>e_original = p, e_width = W', e_height = H',
                                     e_variants = variantsFor cfg p W' H'\<rparr>)"
    by blast
  have "\<forall>v \<in> set (variantsFor cfg p W' H'). v_width v \<le> W' \<and> v_width v \<in> set (sizes cfg)
          \<and> v_path v = getOutputFilename p (v_width v) (v_format v)"
    by (auto simp: variantsFor_def)
  with md im show "\<exists>e md. images (stateOf (processImage cfg ev p s)) p = Some e
             \<and> metadata ev p = Some md \<and> m_width md = Some (e_width e)
             \<and> (\<forall>v \<in> set (e_variants e). v_width v \<le> e_width e \<and> v_width v \<in> set (sizes cfg)
                    \<and> v_path v = getOutputFilename p (v_width v) (v_format v))"
    by simp
next
  assume m: "metadata ev p = Some md \<and> m_width md = Some W"
  then have m1: "metadata ev p = Some md" and m2: "m_width md = Some W"
    by simp_all
  from processImage_calls [OF m1 m2, of cfg s] obtain calls where
    c: "codecCalls (stateOf (processImage cfg ev p s)) = codecCalls s @ calls"
       "\<forall>c \<in> set calls. tracked cfg ev p (clock s) (stateOf (processImage cfg ev p s))
             (filter (\<lambda>tw. tw \<le> W) (sizes cfg)) (formats cfg) c"
    by blast
  have "\<forall>c \<in> set calls. p_source c = p
          \<and> (\<exists>tw \<in> set (sizes cfg). tw \<le> W \<and> p_width c = Num tw)"
    using c(2) unfolding tracked_def by fastforce
  with c(1) show "\<exists>calls. codecCalls (stateOf (processImage cfg ev p s)) = codecCalls s @ calls
             \<and> (\<forall>c \<in> set calls. p_source c = p
                    \<and> (\<exists>tw \<in> set (sizes cfg). tw \<le> W \<and> p_width c = Num tw))"
    by blast
next
  assume m: "metadata ev p = Some md \<and> m_width md = Some W"
  then have m1: "metadata ev p = Some md" and m2: "m_width md = Some W"
    by simp_all
  show "\<forall>tw f. W < tw \<longrightarrow>
          outFiles (stateOf (processImage cfg ev p s)) (getOutputFilename p tw f)
            = outFiles s (getOutputFilename p tw f)"
  proof (intro allI impI, rule ccontr)
    fix tw f
    assume big: "W < tw"
      and ne: "outFiles (stateOf (processImage cfg ev p s)) (getOutputFilename p tw f)
                 \<noteq> outFiles s (getOutputFilename p tw f)"
    from processImage_files [OF m1 m2 ne] getOutputFilename_not_source [of p tw f]
    obtain tw' f' where "tw' \<le> W" "getOutputFilename p tw f = getOutputFilename p tw' f'"
      by blast
    with getOutputFilename_width_inj [of p tw f tw' f'] big show False
      by simp
  qed
qed

theorem processImage_no_upscaling_witness:
  "\<not> threw (processImage exampleConfig exampleEnv ''photo.jpg'' freshState)
   \<and> errors (stateOf (processImage exampleConfig exampleEnv ''photo.jpg'' freshState))
       = errors freshState
   \<and> metadata exampleEnv ''photo.jpg''
       = Some \<lparr>m_width = Some 500, m_height = Some 400, m_format = Some ''jpeg''\<rparr>
   \<and> sizes exampleConfig = [320, 640]
   \<and> map p_width (codecCalls (stateOf (processImage exampleConfig exampleEnv ''photo.jpg''
        freshState))) = [Num 320]
   \<and> getOutputFilename ''photo.jpg'' 640 ''webp'' = ''photo-640w.webp''
   \<and> outFiles (stateOf (processImage exampleConfig exampleEnv ''photo.jpg'' freshState))
        ''photo-640w.webp'' = None
   \<and> (\<exists>e. images (stateOf (processImage exampleConfig exampleEnv ''photo.jpg'' freshState))
              ''photo.jpg'' = Some e
          \<and> e_width e = 500
          \<and> map v_path (e_variants e) = [''photo-320w.webp''])"
  using processImage_no_upscaling [of exampleConfig exampleEnv "''photo.jpg''" freshState
      "\<lparr>m_width = Some 500, m_height = Some 400, m_format = Some ''jpeg''\<rparr>" 500]
    example_photo_run example_photo_trace
  by (simp add: exampleConfig_def exampleEnv_def exampleMetadata_def freshState_def outFiles_def
      getOutputFilename_def slice_def lastIndexOf_def relIndex_def showInt_def digitChar_def)

text \<open>
  C9, as the code has it. When \<^verbatim>\<open>processImage\<close> succeeds, every variant it records has
  the height \<^verbatim>\<open>Math.round(width * (originalHeight / originalWidth))\<close>, computed in double
  arithmetic from the intrinsic dimensions read at generation time: the quotient is rounded
  to a double first, then the product.
\<close>

theorem processImage_recorded_height:
  assumes "\<not> threw (processImage cfg ev p s)"
    and "errors (stateOf (processImage cfg ev p s)) = errors s"
  shows "\<exists>e md W H. images (stateOf (processImage cfg ev p s)) p = Some e
           \<and> metadata ev p = Some md \<and> m_width md = Some W \<and> m_height md = Some H
           \<and> (\<forall>v \<in> set (e_variants e).
                  v_height v = mathRound (dmul (v_width v) (ddiv H W)))"
proof -
  from processImage_success [OF assms] obtain md W H where
    md: "metadata ev p = Some md" "m_width md = Some W" "m_height md = Some H"
    and im: "images (stateOf (processImage cfg ev p s))
               = (images s)(p \<mapsto> \<lparr>e_original = p, e_width = W, e_height = H,
                                     e_variants = variantsFor cfg p W H\<rparr>)"
    by blast
  have "\<forall>v \<in> set (variantsFor cfg p W H). v_height v = mathRound (dmul (v_width v) (ddiv H W))"
    by (auto simp: variantsFor_def)
  with md im show ?thesis by simp
qed

theorem processImage_recorded_height_witness:
  "\<not> threw (processImage exampleConfig exampleEnv ''a/b.jpg'' freshState)
   \<and> errors (stateOf (processImage exampleConfig exampleEnv ''a/b.jpg'' freshState))
       = errors freshState
   \<and> (\<exists>e. images (stateOf (processImage exampleConfig exampleEnv ''a/b.jpg'' freshState))
              ''a/b.jpg'' = Some e
          \<and> map v_height (e_variants e) = [160, 320]
          \<and> (\<forall>v \<in> set (e_variants e).
                 v_height v = mathRound (dmul (v_width v) (ddiv 500 1000))))"
  using processImage_recorded_height [of exampleConfig exampleEnv "''a/b.jpg''" freshState]
    example_ab_run
  by (simp add: exampleEnv_def exampleMetadata_def freshState_def)

text \<open>
  C9, as the specification states it, fails. For the 640 x 368 image and the configured
  width 100 the exact value \<open>100 * 368 / 640\<close> is \<open>57.5\<close>, which rounds to 58; the double
  product \<open>100 * (368 / 640)\<close> is \<open>57.49999999999999\<close>, and the code records 57.
\<close>

theorem processImage_recorded_height_counterexample:
  "map v_height (e_variants (the (images (stateOf
      (processImage (exampleConfig\<lparr>sizes := [100]\<rparr>) exampleEnv ''wide.jpg'' freshState))
      ''wide.jpg''))) = [57]
   \<and> roundRatio (100 * 368) 640 = 58"
  by (simp add: run_defs roundRatio_def)

subsection \<open>Failure of an encode\<close>

lemma cleanTrace_Nil: "cleanTrace ev thrown []"
  by (simp add: cleanTrace_def)

lemma cleanTrace_fail: "transform ev b = None \<Longrightarrow> cleanTrace ev True [b]"
  unfolding cleanTrace_def by (rule exI [of _ "[]"], rule exI [of _ "[b]"]) simp

lemma cleanTrace_Cons:
  assumes "transform ev q \<noteq> None" and "cleanTrace ev thrown calls"
  shows "cleanTrace ev thrown (q # calls)"
proof -
  from assms(2) obtain ok bad where
    h: "calls = ok @ bad" "\<forall>q \<in> set ok. transform ev q \<noteq> None"
       "bad = [] \<or> (thrown \<and> (\<exists>b. bad = [b] \<and> transform ev b = None))"
    unfolding cleanTrace_def by blast
  show ?thesis
    unfolding cleanTrace_def
    by (rule exI [of _ "q # ok"], rule exI [of _ bad]) (use assms(1) h in auto)
qed

lemma cleanTrace_append:
  assumes "cleanTrace ev False calls1" and "cleanTrace ev thrown calls2"
  shows "cleanTrace ev thrown (calls1 @ calls2)"
proof -
  from assms(1) have "\<forall>q \<in> set calls1. transform ev q \<noteq> None"
    unfolding cleanTrace_def by auto
  then show ?thesis
    using assms(2) by (induction calls1) (auto intro: cleanTrace_Cons)
qed

lemma cleanTrace_failure_last:
  assumes "cleanTrace ev thrown calls" and "pl \<in> set calls" and "transform ev pl = None"
  shows "thrown \<and> calls = butlast calls @ [pl] \<and> (\<forall>q \<in> set (butlast calls). transform ev q \<noteq> None)"
proof -
  from assms(1) obtain ok bad where
    h: "calls = ok @ bad" "\<forall>q \<in> set ok. transform ev q \<noteq> None"
       "bad = [] \<or> (thrown \<and> (\<exists>b. bad = [b] \<and> transform ev b = None))"
    unfolding cleanTrace_def by blast
  from assms(2,3) h(1,2) have "pl \<in> set bad" by auto
  with h(3) have "thrown" "bad = [pl]" by auto
  with h(1,2) show ?thesis by simp
qed

lemma formatsLoop_trace:
  "\<exists>calls. codecCalls (stateOf (formatsLoop cfg ev p tw th fs vs s)) = codecCalls s @ calls
     \<and> cleanTrace ev (threw (formatsLoop cfg ev p tw th fs vs s)) calls"
proof (induction fs arbitrary: vs s)
  case Nil
  show ?case by (simp add: cleanTrace_Nil)
next
  case (Cons f fs)
  let ?name = "getOutputFilename p tw f"
  let ?v = "\<lparr>v_format = f, v_size = tw, v_path = ?name, v_width = tw, v_height = th\<rparr>"
  let ?pl = "\<lparr>p_source = p, p_width = Num tw, p_height = Num th,
              p_encoder = formatOptions f (quality cfg)\<rparr>"
  let ?s1 = "s\<lparr>codecCalls := codecCalls s @ [?pl]\<rparr>"
  consider (skip) "skipExisting cfg \<and> fileExistsOut s ?name"
    | (nodir) "\<not> (skipExisting cfg \<and> fileExistsOut s ?name)" "\<not> mkdirOk ev (dirOf ?name)"
    | (fail) "\<not> (skipExisting cfg \<and> fileExistsOut s ?name)" "mkdirOk ev (dirOf ?name)"
        "transform ev ?pl = None"
    | (ok) buf where "\<not> (skipExisting cfg \<and> fileExistsOut s ?name)" "mkdirOk ev (dirOf ?name)"
        "transform ev ?pl = Some buf"
    by (cases "transform ev ?pl") auto
  then show ?case
  proof cases
    case skip
    then have "formatsLoop cfg ev p tw th (f # fs) vs s = formatsLoop cfg ev p tw th fs (vs @ [?v]) s"
      by (simp add: Let_def)
    with Cons [of "vs @ [?v]" s] show ?thesis by simp
  next
    case nodir
    then have "formatsLoop cfg ev p tw th (f # fs) vs s = Threw s"
      by (auto simp: Let_def)
    then show ?thesis by (simp add: cleanTrace_Nil)
  next
    case fail
    then have "formatsLoop cfg ev p tw th (f # fs) vs s = Threw ?s1"
      by (auto simp: Let_def)
    with fail(3) show ?thesis by (simp add: cleanTrace_fail)
  next
    case ok
    then have eq: "formatsLoop cfg ev p tw th (f # fs) vs s
             = formatsLoop cfg ev p tw th fs (vs @ [?v]) (writeFile ?name ?s1)"
      by (auto simp: Let_def)
    from Cons [of "vs @ [?v]" "writeFile ?name ?s1"] obtain calls where
      c: "codecCalls (stateOf (formatsLoop cfg ev p tw th fs (vs @ [?v]) (writeFile ?name ?s1)))
            = codecCalls (writeFile ?name ?s1) @ calls"
         "cleanTrace ev (threw (formatsLoop cfg ev p tw th fs (vs @ [?v]) (writeFile ?name ?s1))) calls"
      by blast
    have "cleanTrace ev (threw (formatsLoop cfg ev p tw th (f # fs) vs s)) (?pl # calls)"
      using c(2) ok(3) eq by (auto intro: cleanTrace_Cons)
    moreover have "codecCalls (stateOf (formatsLoop cfg ev p tw th (f # fs) vs s))
                     = codecCalls s @ ?pl # calls"
      using c(1) eq by (simp add: writeFile_def)
    ultimately show ?thesis by blast
  qed
qed

lemma sizesLoop_trace:
  "\<exists>calls. codecCalls (stateOf (sizesLoop cfg ev p W ratio ws vs s)) = codecCalls s @ calls
     \<and> cleanTrace ev (threw (sizesLoop cfg ev p W ratio ws vs s)) calls"
proof (induction ws arbitrary: vs s)
  case Nil
  show ?case by (simp add: cleanTrace_Nil)
next
  case (Cons tw ws)
  show ?case
  proof (cases "W < tw")
    case True
    with Cons [of vs s] show ?thesis by simp
  next
    case False
    let ?r = "formatsLoop cfg ev p tw (mathRound (dmul tw ratio)) (formats cfg) vs s"
    from formatsLoop_trace [of cfg ev p tw "mathRound (dmul tw ratio)" "formats cfg" vs s]
    obtain calls1 where
      c1: "codecCalls (stateOf ?r) = codecCalls s @ calls1" "cleanTrace ev (threw ?r) calls1"
      by blast
    show ?thesis
    proof (cases ?r)
      case (Threw s')
      with False c1 show ?thesis by (auto simp: Let_def)
    next
      case (Done vs' s')
      from Cons [of vs' s'] obtain calls2 where
        c2: "codecCalls (stateOf (sizesLoop cfg ev p W ratio ws vs' s')) = codecCalls s' @ calls2"
            "cleanTrace ev (threw (sizesLoop cfg ev p W ratio ws vs' s')) calls2"
        by blast
      have eq: "sizesLoop cfg ev p W ratio (tw # ws) vs s = sizesLoop cfg ev p W ratio ws vs' s'"
        using False Done by (simp add: Let_def)
      from c1 Done have "codecCalls s' = codecCalls s @ calls1" "cleanTrace ev False calls1"
        by simp_all
      with c2 eq have "codecCalls (stateOf (sizesLoop cfg ev p W ratio (tw # ws) vs s))
                         = codecCalls s @ calls1 @ calls2"
        and "cleanTrace ev (threw (sizesLoop cfg ev p W ratio (tw # ws) vs s)) (calls1 @ calls2)"
        by (auto intro: cleanTrace_append)
      then show ?thesis by blast
    qed
  qed
qed

lemma generateVariants_trace:
  "\<exists>calls. codecCalls (stateOf (generateVariants cfg ev p W H s)) = codecCalls s @ calls
     \<and> cleanTrace ev (threw (generateVariants cfg ev p W H s)) calls"
proof -
  let ?r = "sizesLoop cfg ev p W (ddiv H W) (sizes cfg) [] s"
  from sizesLoop_trace [of cfg ev p W "ddiv H W" "sizes cfg" "[]" s] obtain calls where
    c: "codecCalls (stateOf ?r) = codecCalls s @ calls" "cleanTrace ev (threw ?r) calls"
    by blast
  show ?thesis
  proof (cases ?r)
    case (Threw s1)
    with c show ?thesis by (auto simp: generateVariants_def Let_def)
  next
    case (Done vs s1)
    with c have c': "codecCalls s1 = codecCalls s @ calls" "cleanTrace ev False calls"
      by simp_all
    then have any: "\<And>b. cleanTrace ev b calls"
      by (auto simp: cleanTrace_def)
    have "codecCalls (stateOf (generateVariants cfg ev p W H s)) = codecCalls s1"
      using Done by (auto simp: generateVariants_def Let_def copyOriginal_def writeFile_def)
    with c' any show ?thesis by auto
  qed
qed

lemma processImage_unreadable:
  assumes "mkdirOk ev (dirOf p)"
    and "\<not> (\<exists>md W H. metadata ev p = Some md \<and> m_width md = Some W \<and> m_height md = Some H
              \<and> W \<noteq> 0 \<and> H \<noteq> 0)"
  shows "\<not> threw (processImage cfg ev p s)
         \<and> (\<exists>r. errors (stateOf (processImage cfg ev p s)) = errors s @ [r])
         \<and> images (stateOf (processImage cfg ev p s)) = images s
         \<and> codecCalls (stateOf (processImage cfg ev p s)) = codecCalls s
         \<and> outFiles (stateOf (processImage cfg ev p s)) = outFiles s"
proof (cases "metadata ev p")
  case None
  with assms(1) show ?thesis
    by (simp add: processImage_def logError_def)
next
  case (Some md)
  show ?thesis
  proof (cases "m_width md")
    case None
    with Some assms(1) show ?thesis
      by (simp add: processImage_def logError_def)
  next
    case W: (Some W)
    show ?thesis
    proof (cases "m_height md")
      case None
      with Some W assms(1) show ?thesis
        by (simp add: processImage_def logError_def)
    next
      case H: (Some H)
      with Some W assms(2) have "W = 0 \<or> H = 0" by auto
      with Some W H assms(1) show ?thesis
        by (auto simp: processImage_def logError_def)
    qed
  qed
qed

lemma processImage_reports:
  assumes "mkdirOk ev (dirOf p)"
  shows "\<not> threw (processImage cfg ev p s)
         \<and> (errors (stateOf (processImage cfg ev p s)) = errors s
            \<or> ((\<exists>r. errors (stateOf (processImage cfg ev p s)) = errors s @ [r])
               \<and> images (stateOf (processImage cfg ev p s)) = images s))"
proof (cases "\<exists>md W H. metadata ev p = Some md \<and> m_width md = Some W \<and> m_height md = Some H
              \<and> W \<noteq> 0 \<and> H \<noteq> 0")
  case False
  from processImage_unreadable [OF assms False, of cfg s] show ?thesis by blast
next
  case True
  then obtain md W H where
    h: "metadata ev p = Some md" "m_width md = Some W" "m_height md = Some H" "W \<noteq> 0" "H \<noteq> 0"
    by blast
  show ?thesis
  proof (cases "generateVariants cfg ev p W H s")
    case (Threw s')
    with generateVariants_Threw [OF Threw] assms h show ?thesis
      by (simp add: processImage_def logError_def)
  next
    case (Done u s')
    with generateVariants_Done [OF Done] assms h show ?thesis
      by (simp add: processImage_def)
  qed
qed

lemma example_late_failing_run:
  "codecCalls (stateOf (processImage exampleConfig lateFailingEnv ''a/b.jpg'' freshState))
     = [\<lparr>p_source = ''a/b.jpg'', p_width = Num 320, p_height = Num 160, p_encoder = Webp (Num 80)\<rparr>,
        \<lparr>p_source = ''a/b.jpg'', p_width = Num 640, p_height = Num 320, p_encoder = Webp (Num 80)\<rparr>]"
  "outTree (stateOf (processImage exampleConfig lateFailingEnv ''a/b.jpg'' freshState))
     = [(''a/b-320w.webp'', 1000)]"
  by code_simp+

lemma example_unreadable_run:
  "errors (stateOf (processImage exampleConfig unreadableEnv ''photo.jpg'' freshState))
     = [MetadataUnreadable ''photo.jpg'']"
  by code_simp

text \<open>
  C1, as the code has it. All of \<^verbatim>\<open>processImage\<close> after its first \<^verbatim>\<open>ensureDir\<close> is one
  \<^verbatim>\<open>try\<close> block.

  \<^item> If one of the encodes the call invokes fails, the call still returns (the failure is
    not fatal), exactly one error is reported, the manifest is left as it was, so that the
    Original contributes no variant, and the failing encode is the last codec call: nothing
    is encoded after it, every earlier encode succeeded, and the file each of them wrote
    during this call is on disk.
  \<^item> If the first \<^verbatim>\<open>ensureDir\<close> succeeds and the metadata of the Original cannot be read
    (the decoder fails, or a dimension is missing or zero), the call returns, reports exactly
    one error, invokes no encode and changes neither the manifest nor the output tree.
  \<^item> Whenever the first \<^verbatim>\<open>ensureDir\<close> succeeds the call returns, and either it reports no
    error, or it reports exactly one error and leaves the manifest as it was.
  \<^item> Every file of the output tree before the call is still there after it.
\<close>

theorem processImage_encode_failure_aborts:
  "(codecCalls (stateOf (processImage cfg ev p s)) = codecCalls s @ calls
      \<and> pl \<in> set calls \<and> transform ev pl = None
    \<longrightarrow> \<not> threw (processImage cfg ev p s)
        \<and> errors (stateOf (processImage cfg ev p s)) = errors s @ [ProcessFailed p]
        \<and> images (stateOf (processImage cfg ev p s)) = images s
        \<and> calls = butlast calls @ [pl]
        \<and> (\<forall>q \<in> set (butlast calls). transform ev q \<noteq> None
               \<and> (\<exists>tw f t. p_width q = Num tw \<and> p_encoder q = formatOptions f (quality cfg)
                      \<and> outFiles (stateOf (processImage cfg ev p s)) (getOutputFilename p tw f)
                          = Some t
                      \<and> clock s \<le> t)))
   \<and> (mkdirOk ev (dirOf p)
      \<and> \<not> (\<exists>md W H. metadata ev p = Some md \<and> m_width md = Some W \<and> m_height md = Some H
                \<and> W \<noteq> 0 \<and> H \<noteq> 0)
    \<longrightarrow> \<not> threw (processImage cfg ev p s)
        \<and> (\<exists>r. errors (stateOf (processImage cfg ev p s)) = errors s @ [r])
        \<and> images (stateOf (processImage cfg ev p s)) = images s
        \<and> codecCalls (stateOf (processImage cfg ev p s)) = codecCalls s
        \<and> outFiles (stateOf (processImage cfg ev p s)) = outFiles s)
   \<and> (mkdirOk ev (dirOf p)
    \<longrightarrow> \<not> threw (processImage cfg ev p s)
        \<and> (errors (stateOf (processImage cfg ev p s)) = errors s
           \<or> ((\<exists>r. errors (stateOf (processImage cfg ev p s)) = errors s @ [r])
              \<and> images (stateOf (processImage cfg ev p s)) = images s)))
   \<and> (\<forall>x. outFiles s x \<noteq> None \<longrightarrow> outFiles (stateOf (processImage cfg ev p s)) x \<noteq> None)"
proof (intro conjI)
  show "codecCalls (stateOf (processImage cfg ev p s)) = codecCalls s @ calls
      \<and> pl \<in> set calls \<and> transform ev pl = None
    \<longrightarrow> \<not> threw (processImage cfg ev p s)
        \<and> errors (stateOf (processImage cfg ev p s)) = errors s @ [ProcessFailed p]
        \<and> images (stateOf (processImage cfg ev p s)) = images s
        \<and> calls = butlast calls @ [pl]
        \<and> (\<forall>q \<in> set (butlast calls). transform ev q \<noteq> None
               \<and> (\<exists>tw f t. p_width q = Num tw \<and> p_encoder q = formatOptions f (quality cfg)
                      \<and> outFiles (stateOf (processImage cfg ev p s)) (getOutputFilename p tw f)
                          = Some t
                      \<and> clock s \<le> t))"
  proof
    assume a: "codecCalls (stateOf (processImage cfg ev p s)) = codecCalls s @ calls
                \<and> pl \<in> set calls \<and> transform ev pl = None"
    then have a1: "codecCalls (stateOf (processImage cfg ev p s)) = codecCalls s @ calls"
      and a2: "pl \<in> set calls" and a3: "transform ev pl = None"
      by simp_all
    from a1 a2 have ne: "codecCalls (stateOf (processImage cfg ev p s)) \<noteq> codecCalls s"
      by auto
    then have mk: "mkdirOk ev (dirOf p)"
      by (cases "mkdirOk ev (dirOf p)") (auto simp: processImage_def)
    from ne processImage_unreadable [OF mk, of cfg s] obtain md W H where
      md: "metadata ev p = Some md" and wh: "m_width md = Some W" "m_height md = Some H"
      and nz: "W \<noteq> 0" "H \<noteq> 0"
      by blast
    let ?g = "generateVariants cfg ev p W H s"
    have pi: "processImage cfg ev p s =
                (case ?g of Threw s' \<Rightarrow> Done () (logError (ProcessFailed p) s')
                          | Done _ s' \<Rightarrow> Done () s')"
      using mk md wh nz by (simp add: processImage_def)
    from generateVariants_trace [of cfg ev p W H s] obtain calls' where
      t: "codecCalls (stateOf ?g) = codecCalls s @ calls'" "cleanTrace ev (threw ?g) calls'"
      by blast
    have "codecCalls (stateOf (processImage cfg ev p s)) = codecCalls (stateOf ?g)"
      by (cases ?g) (simp_all add: pi logError_def)
    with a1 t(1) have "calls' = calls" by simp
    with t(2) cleanTrace_failure_last [OF _ a2 a3]
    have fl: "threw ?g" "calls = butlast calls @ [pl]"
      "\<forall>q \<in> set (butlast calls). transform ev q \<noteq> None"
      by blast+
    from fl(1) obtain s' where g: "?g = Threw s'"
      by (cases ?g) auto
    from generateVariants_Threw [OF g] g pi
    have r: "\<not> threw (processImage cfg ev p s)"
      "errors (stateOf (processImage cfg ev p s)) = errors s @ [ProcessFailed p]"
      "images (stateOf (processImage cfg ev p s)) = images s"
      by (simp_all add: logError_def)
    from processImage_calls [OF md wh(1), of cfg s] a1 have
      tr: "\<forall>c \<in> set calls. tracked cfg ev p (clock s) (stateOf (processImage cfg ev p s))
             (filter (\<lambda>tw. tw \<le> W) (sizes cfg)) (formats cfg) c"
      by auto
    have "\<forall>q \<in> set (butlast calls). transform ev q \<noteq> None
               \<and> (\<exists>tw f t. p_width q = Num tw \<and> p_encoder q = formatOptions f (quality cfg)
                      \<and> outFiles (stateOf (processImage cfg ev p s)) (getOutputFilename p tw f)
                          = Some t
                      \<and> clock s \<le> t)"
    proof
      fix q
      assume q: "q \<in> set (butlast calls)"
      with fl(3) have ok: "transform ev q \<noteq> None" by blast
      from q have "q \<in> set calls" by (rule in_set_butlastD)
      with tr have "tracked cfg ev p (clock s) (stateOf (processImage cfg ev p s))
             (filter (\<lambda>tw. tw \<le> W) (sizes cfg)) (formats cfg) q" by blast
      with ok show "transform ev q \<noteq> None
               \<and> (\<exists>tw f t. p_width q = Num tw \<and> p_encoder q = formatOptions f (quality cfg)
                      \<and> outFiles (stateOf (processImage cfg ev p s)) (getOutputFilename p tw f)
                          = Some t
                      \<and> clock s \<le> t)"
        unfolding tracked_def by blast
    qed
    with r fl(2) show "\<not> threw (processImage cfg ev p s)
        \<and> errors (stateOf (processImage cfg ev p s)) = errors s @ [ProcessFailed p]
        \<and> images (stateOf (processImage cfg ev p s)) = images s
        \<and> calls = butlast calls @ [pl]
        \<and> (\<forall>q \<in> set (butlast calls). transform ev q \<noteq> None
               \<and> (\<exists>tw f t. p_width q = Num tw \<and> p_encoder q = formatOptions f (quality cfg)
                      \<and> outFiles (stateOf (processImage cfg ev p s)) (getOutputFilename p tw f)
                          = Some t
                      \<and> clock s \<le> t))"
      by blast
  qed
next
  show "mkdirOk ev (dirOf p)
      \<and> \<not> (\<exists>md W H. metadata ev p = Some md \<and> m_width md = Some W \<and> m_height md = Some H
                \<and> W \<noteq> 0 \<and> H \<noteq> 0)
    \<longrightarrow> \<not> threw (processImage cfg ev p s)
        \<and> (\<exists>r. errors (stateOf (processImage cfg ev p s)) = errors s @ [r])
        \<and> images (stateOf (processImage cfg ev p s)) = images s
        \<and> codecCalls (stateOf (processImage cfg ev p s)) = codecCalls s
        \<and> outFiles (stateOf (processImage cfg ev p s)) = outFiles s"
    using processImage_unreadable [of ev p cfg s] by blast
next
  show "mkdirOk ev (dirOf p)
    \<longrightarrow> \<not> threw (processImage cfg ev p s)
        \<and> (errors (stateOf (processImage cfg ev p s)) = errors s
           \<or> ((\<exists>r. errors (stateOf (processImage cfg ev p s)) = errors s @ [r])
              \<and> images (stateOf (processImage cfg ev p s)) = images s))"
    using processImage_reports [of ev p cfg s] by blast
next
  show "\<forall>x. outFiles s x \<noteq> None \<longrightarrow> outFiles (stateOf (processImage cfg ev p s)) x \<noteq> None"
    using processImage_extends [of s cfg ev p] unfolding extends_def by fastforce
qed

theorem processImage_encode_failure_aborts_witness:
  "codecCalls (stateOf (processImage exampleConfig lateFailingEnv ''a/b.jpg'' freshState))
     = codecCalls freshState
       @ [\<lparr>p_source = ''a/b.jpg'', p_width = Num 320, p_height = Num 160, p_encoder = Webp (Num 80)\<rparr>,
          \<lparr>p_source = ''a/b.jpg'', p_width = Num 640, p_height = Num 320, p_encoder = Webp (Num 80)\<rparr>]
   \<and> transform lateFailingEnv \<lparr>p_source = ''a/b.jpg'', p_width = Num 640, p_height = Num 320,
                                p_encoder = Webp (Num 80)\<rparr> = None
   \<and> \<not> threw (processImage exampleConfig lateFailingEnv ''a/b.jpg'' freshState)
   \<and> errors (stateOf (processImage exampleConfig lateFailingEnv ''a/b.jpg'' freshState))
       = [ProcessFailed ''a/b.jpg'']
   \<and> images (stateOf (processImage exampleConfig lateFailingEnv ''a/b.jpg'' freshState))
       = images freshState
   \<and> outFiles (stateOf (processImage exampleConfig lateFailingEnv ''a/b.jpg'' freshState))
       ''a/b-320w.webp'' = Some 1000
   \<and> mkdirOk unreadableEnv (dirOf ''photo.jpg'')
   \<and> metadata unreadableEnv ''photo.jpg''
       = Some \<lparr>m_width = None, m_height = None, m_format = None\<rparr>
   \<and> \<not> threw (processImage exampleConfig unreadableEnv ''photo.jpg'' freshState)
   \<and> errors (stateOf (processImage exampleConfig unreadableEnv ''photo.jpg'' freshState))
       = [MetadataUnreadable ''photo.jpg'']
   \<and> images (stateOf (processImage exampleConfig unreadableEnv ''photo.jpg'' freshState))
       = images freshState
   \<and> codecCalls (stateOf (processImage exampleConfig unreadableEnv ''photo.jpg'' freshState)) = []
   \<and> outFiles (stateOf (processImage exampleConfig unreadableEnv ''photo.jpg'' freshState))
       = outFiles freshState"
  using processImage_encode_failure_aborts [of exampleConfig lateFailingEnv "''a/b.jpg''" freshState
      "[\<lparr>p_source = ''a/b.jpg'', p_width = Num 320, p_height = Num 160, p_encoder = Webp (Num 80)\<rparr>,
        \<lparr>p_source = ''a/b.jpg'', p_width = Num 640, p_height = Num 320, p_encoder = Webp (Num 80)\<rparr>]"
      "\<lparr>p_source = ''a/b.jpg'', p_width = Num 640, p_height = Num 320, p_encoder = Webp (Num 80)\<rparr>"]
    processImage_encode_failure_aborts [of exampleConfig unreadableEnv "''photo.jpg''" freshState]
    example_late_failing_run example_unreadable_run
  by (simp add: lateFailingEnv_def unreadableEnv_def exampleEnv_def freshState_def outFiles_def)

text \<open>
  C1, as the specification states it, fails. With the sizes 320 and 640 and a codec that
  fails on the 320-wide encode only, the 640-wide variant is never attempted: no file, no
  manifest entry.
\<close>

theorem processImage_partial_success_counterexample:
  "transform failingEnv \<lparr>p_source = ''a/b.jpg'', p_width = Num 640, p_height = Num 320,
                          p_encoder = Webp (Num 80)\<rparr> \<noteq> None
   \<and> sizes exampleConfig = [320, 640]
   \<and> map p_width (codecCalls (stateOf (processImage exampleConfig failingEnv ''a/b.jpg''
        freshState))) = [Num 320]
   \<and> outFiles (stateOf (processImage exampleConfig failingEnv ''a/b.jpg'' freshState))
        ''a/b-640w.webp'' = None
   \<and> images (stateOf (processImage exampleConfig failingEnv ''a/b.jpg'' freshState)) ''a/b.jpg''
        = None"
  by code_simp

section \<open>Batch Orchestrator: properties\<close>

text \<open>
  C8. \<^verbatim>\<open>processAllImages\<close> is single-flight. When the guard is set at entry, the call
  changes nothing: manifest, files, clock, trace and error log are as before. When the guard
  is clear at entry, it is clear again at exit, whatever path the run took: missing input
  directory, no images, nothing stale, a completed run, or an exception caught on the way.
\<close>

theorem processAllImages_single_flight:
  "(isProcessing s \<longrightarrow> processAllImages cfg ev forceAll s = s)
   \<and> (\<not> isProcessing s \<longrightarrow> \<not> isProcessing (processAllImages cfg ev forceAll s))"
  by (simp add: processAllImages_def Let_def)

theorem processAllImages_single_flight_witness:
  "isProcessing busyState
   \<and> processAllImages exampleConfig exampleEnv False busyState = busyState
   \<and> \<not> isProcessing freshState
   \<and> \<not> isProcessing (processAllImages exampleConfig exampleEnv False freshState)
   \<and> \<not> isProcessing (processAllImages exampleConfig (exampleEnv\<lparr>inputDirExists := False\<rparr>)
          False freshState)
   \<and> \<not> isProcessing (processAllImages exampleConfig (exampleEnv\<lparr>listing := None\<rparr>)
          False freshState)"
  using processAllImages_single_flight [of busyState exampleConfig exampleEnv False]
    processAllImages_single_flight [of freshState exampleConfig exampleEnv False]
    processAllImages_single_flight [of freshState exampleConfig
      "exampleEnv\<lparr>inputDirExists := False\<rparr>" False]
    processAllImages_single_flight [of freshState exampleConfig
      "exampleEnv\<lparr>listing := None\<rparr>" False]
  by (simp add: busyState_def builtState_def freshState_def)

text \<open>The two error exits of the example world report and return.\<close>

lemma example_exit_paths:
  "errors (processAllImages exampleConfig (exampleEnv\<lparr>inputDirExists := False\<rparr>) False freshState)
     = [InputDirMissing]"
  "errors (processAllImages exampleConfig (exampleEnv\<lparr>listing := None\<rparr>) False freshState)
     = [ProcessingFailed]"
  by (simp_all add: processAllImages_def processAllBody_def getImageFiles_def logError_def
      exampleEnv_def freshState_def)

section \<open>On-The-Fly Resolver: properties\<close>

text \<open>
  C10. For a source that exists and whose metadata gives both dimensions, a format string
  outside webp, avif, jpeg, jpg, png selects no encoder: the codec runs the resize alone, at
  the requested width or else the intrinsic one, and when it delivers a buffer the result is
  that buffer with the content type \<open>image/\<close> followed by the detected format, \<open>jpeg\<close> when
  the metadata has none. Nothing is reported as an error.
\<close>

theorem optimizeOnTheFly_unknown_format:
  assumes "format \<notin> set [''webp'', ''avif'', ''jpeg'', ''jpg'', ''png'']"
    and "fileExistsIn ev p"
    and "metadata ev p = Some md"
    and "m_width md = Some mw" and "m_height md = Some mh" and "mw \<noteq> 0" and "mh \<noteq> 0"
    and "targetWidth = (case width of None \<Rightarrow> Num mw | Some n \<Rightarrow> n)"
    and "pl = \<lparr>p_source = p, p_width = targetWidth,
               p_height = scaledHeight targetWidth (ddiv mh mw), p_encoder = Unconverted\<rparr>"
    and "transform ev pl = Some buffer"
  shows "fst (optimizeOnTheFly ev p width format q s)
           = Some (buffer, ''image/'' @ (case m_format md of None \<Rightarrow> ''jpeg'' | Some f \<Rightarrow> f))
         \<and> codecCalls (snd (optimizeOnTheFly ev p width format q s)) = codecCalls s @ [pl]
         \<and> errors (snd (optimizeOnTheFly ev p width format q s)) = errors s"
  using assms by (simp add: optimizeOnTheFly_def onTheFlyFormat_def Let_def)

lemmas fly_defs =
  optimizeOnTheFly_def onTheFlyFormat_def scaledHeight_def Let_def fileExistsIn_def
  mathRound_def dmul_def ddiv_def toDouble_def roundPos_def roundHalfEven_def
  exampleEnv_def exampleMetadata_def

theorem optimizeOnTheFly_unknown_format_witness:
  "''bmp'' \<notin> set [''webp'', ''avif'', ''jpeg'', ''jpg'', ''png'']
   \<and> fileExistsIn exampleEnv ''a/b.jpg''
   \<and> metadata exampleEnv ''a/b.jpg''
        = Some \<lparr>m_width = Some 1000, m_height = Some 500, m_format = Some ''jpeg''\<rparr>
   \<and> transform exampleEnv \<lparr>p_source = ''a/b.jpg'', p_width = Num 800, p_height = Num 400,
                            p_encoder = Unconverted\<rparr> = Some []
   \<and> fst (optimizeOnTheFly exampleEnv ''a/b.jpg'' (Some (Num 800)) ''bmp'' (Num 80) freshState)
        = Some ([], ''image/jpeg'')
   \<and> codecCalls (snd (optimizeOnTheFly exampleEnv ''a/b.jpg'' (Some (Num 800)) ''bmp'' (Num 80) freshState))
        = [\<lparr>p_source = ''a/b.jpg'', p_width = Num 800, p_height = Num 400,
            p_encoder = Unconverted\<rparr>]"
  using optimizeOnTheFly_unknown_format [of "''bmp''" exampleEnv "''a/b.jpg''"
      "\<lparr>m_width = Some 1000, m_height = Some 500, m_format = Some ''jpeg''\<rparr>" 1000 500
      "Num 800" "Some (Num 800)"
      "\<lparr>p_source = ''a/b.jpg'', p_width = Num 800, p_height = Num 400, p_encoder = Unconverted\<rparr>"
      "[]" "Num 80" freshState]
  by (simp add: fly_defs freshState_def)

lemma optimizeOnTheFly_effect:
  "\<exists>res calls errs. \<forall>s. optimizeOnTheFly ev p width format q s
       = (res, s\<lparr>codecCalls := codecCalls s @ calls, errors := errors s @ errs\<rparr>)
     \<and> (res \<noteq> None \<longrightarrow> length calls = 1)"
proof (cases "fileExistsIn ev p")
  case False
  then have "\<forall>s. optimizeOnTheFly ev p width format q s
               = (None, s\<lparr>codecCalls := codecCalls s @ [], errors := errors s @ []\<rparr>)"
    by (simp add: optimizeOnTheFly_def)
  then show ?thesis by blast
next
  case ex: True
  show ?thesis
  proof (cases "metadata ev p")
    case None
    with ex have "\<forall>s. optimizeOnTheFly ev p width format q s
               = (None, s\<lparr>codecCalls := codecCalls s @ [], errors := errors s @ [OnTheFlyFailed p]\<rparr>)"
      by (simp add: optimizeOnTheFly_def logError_def)
    then show ?thesis by blast
  next
    case (Some md)
    show ?thesis
    proof (cases "\<exists>mw mh. m_width md = Some mw \<and> m_height md = Some mh \<and> mw \<noteq> 0 \<and> mh \<noteq> 0")
      case False
      with ex Some have "\<forall>s. optimizeOnTheFly ev p width format q s
               = (None, s\<lparr>codecCalls := codecCalls s @ [], errors := errors s @ []\<rparr>)"
        by (auto simp: optimizeOnTheFly_def split: option.splits)
      then show ?thesis by blast
    next
      case True
      then obtain mw mh where d: "m_width md = Some mw" "m_height md = Some mh" "mw \<noteq> 0" "mh \<noteq> 0"
        by blast
      define tw where "tw = (case width of None \<Rightarrow> Num mw | Some n \<Rightarrow> n)"
      define pl where "pl = \<lparr>p_source = p, p_width = tw, p_height = scaledHeight tw (ddiv mh mw),
                              p_encoder = fst (onTheFlyFormat format q md)\<rparr>"
      show ?thesis
      proof (cases "transform ev pl")
        case None
        with ex Some d have "\<forall>s. optimizeOnTheFly ev p width format q s
               = (None, s\<lparr>codecCalls := codecCalls s @ [pl], errors := errors s @ [OnTheFlyFailed p]\<rparr>)"
          by (simp add: optimizeOnTheFly_def logError_def Let_def pl_def tw_def)
        then show ?thesis by blast
      next
        case (Some buffer)
        with ex \<open>metadata ev p = Some md\<close> d
        have "\<forall>s. optimizeOnTheFly ev p width format q s
               = (Some (buffer, snd (onTheFlyFormat format q md)),
                  s\<lparr>codecCalls := codecCalls s @ [pl], errors := errors s @ []\<rparr>)"
          by (simp add: optimizeOnTheFly_def Let_def pl_def tw_def)
        then show ?thesis by (metis length_Cons list.size(3) One_nat_def)
      qed
    qed
  qed
qed

lemma isImageFile_nonempty: "isImageFile p \<Longrightarrow> p \<noteq> []"
  by (auto simp: isImageFile_def sliceFrom_def toLowerCase_def lastIndexOf_def relIndex_def
      SUPPORTED_EXTENSIONS_def)

text \<open>
  C5, as the code has it. Take a request for an image name that is not of the form
  \<open>name-{width}w.{format}\<close> and that carries a non-empty \<open>w\<close>, \<open>format\<close> or \<open>q\<close>. The
  handler returns; the response is never a file of the output or input tree; the output
  tree and the manifest are left as they were; and when the response is a success it carries
  \<open>X-Image-Optimized: on-the-fly\<close> and the codec was invoked once. The same request again
  gives the same response and invokes the codec once more.
\<close>

theorem query_request_never_cached:
  assumes "relativePath = sliceFrom (pathname req) (int (length (publicPath cfg)) + 1)"
    and "isImageFile relativePath"
    and "variantMatch relativePath = None"
    and "truthy (param_w req) \<or> truthy (param_format req) \<or> truthy (param_q req)"
  shows "\<exists>resp s1 s2.
           handleRequest cfg ev req s = Done resp s1
           \<and> handleRequest cfg ev req s1 = Done resp s2
           \<and> outFiles s1 = outFiles s \<and> outFiles s2 = outFiles s
           \<and> images s1 = images s \<and> images s2 = images s
           \<and> (\<forall>p. resp_body resp \<noteq> OutputFileBody p \<and> resp_body resp \<noteq> InputFileBody p)
           \<and> (resp_status resp = 200 \<longrightarrow>
                 header resp ''X-Image-Optimized'' = Some ''on-the-fly''
                 \<and> (\<exists>pl. codecCalls s1 = codecCalls s @ [pl]
                          \<and> codecCalls s2 = codecCalls s @ [pl, pl]))"
proof -
  define width where "width = (if truthy (param_w req) then Some (parseInt (the (param_w req))) else None)"
  define format where "format = (case param_format req of Some f \<Rightarrow> f
                    | None \<Rightarrow> (case formats cfg of f # _ \<Rightarrow> f | [] \<Rightarrow> ''webp''))"
  define q where "q = (if truthy (param_q req) then parseInt (the (param_q req)) else Num (quality cfg))"
  from optimizeOnTheFly_effect [of ev relativePath width format q] obtain res calls errs where
    eff: "\<And>s. optimizeOnTheFly ev relativePath width format q s
            = (res, s\<lparr>codecCalls := codecCalls s @ calls, errors := errors s @ errs\<rparr>)"
    and one: "res \<noteq> None \<longrightarrow> length calls = 1"
    by blast
  have hr: "\<And>s. handleRequest cfg ev req s =
              (case optimizeOnTheFly ev relativePath width format q s of
                 (None, s1) \<Rightarrow> Done (textResponse 500 ''Failed to process image'') s1
               | (Some (buffer, contentType), s1) \<Rightarrow>
                   Done \<lparr>resp_status = 200,
                         resp_headers = [(''Content-Type'', contentType),
                                         (''Cache-Control'', ''public, max-age=86400''),
                                         (''X-Image-Optimized'', ''on-the-fly'')],
                         resp_body = BufferBody buffer\<rparr> s1)"
    using assms isImageFile_nonempty [OF assms(2)]
    by (auto simp: handleRequest_def serveQuery_def Let_def width_def format_def q_def)
  show ?thesis
  proof (cases res)
    case None
    then show ?thesis
      by (simp add: hr eff textResponse_def)
  next
    case (Some bc)
    with one obtain pl where "calls = [pl]"
      by (cases calls) auto
    with Some show ?thesis
      by (cases bc) (simp add: hr eff header_def)
  qed
qed

lemmas handler_defs =
  handleRequest_def serveQuery_def serveVariant_def variantMatch_def isImageFile_def
  sliceFrom_def slice_def lastIndexOf_def relIndex_def toLowerCase_def toLowerChar_def
  SUPPORTED_EXTENSIONS_def isDigit_def truthy_def parseInt_def isWhiteSpace_def
  digitsValue_def digitValue_def textResponse_def immutableHeaders_def header_def
  fileExistsOut_def writeFile_def dirOf_def

lemma example_query_request:
  "sliceFrom (pathname queryRequest) (int (length (publicPath exampleConfig)) + 1) = ''photo.jpg''"
  "isImageFile ''photo.jpg''"
  "variantMatch ''photo.jpg'' = None"
  "truthy (param_w queryRequest)"
  by (simp_all add: queryRequest_def exampleConfig_def handler_defs)

lemma example_query_response:
  "resultOf (handleRequest exampleConfig exampleEnv queryRequest freshState)
     = Some \<lparr>resp_status = 200,
              resp_headers = [(''Content-Type'', ''image/avif''),
                              (''Cache-Control'', ''public, max-age=86400''),
                              (''X-Image-Optimized'', ''on-the-fly'')],
              resp_body = BufferBody []\<rparr>"
  by code_simp

theorem query_request_never_cached_witness:
  "sliceFrom (pathname queryRequest) (int (length (publicPath exampleConfig)) + 1) = ''photo.jpg''
   \<and> isImageFile ''photo.jpg''
   \<and> variantMatch ''photo.jpg'' = None
   \<and> truthy (param_w queryRequest)
   \<and> (\<exists>resp s1 s2.
         handleRequest exampleConfig exampleEnv queryRequest freshState = Done resp s1
         \<and> handleRequest exampleConfig exampleEnv queryRequest s1 = Done resp s2
         \<and> outFiles s2 = outFiles freshState
         \<and> resp_status resp = 200
         \<and> header resp ''X-Image-Optimized'' = Some ''on-the-fly''
         \<and> (\<exists>pl. codecCalls s2 = codecCalls freshState @ [pl, pl]))"
proof -
  from query_request_never_cached [of "''photo.jpg''" queryRequest exampleConfig exampleEnv
      freshState] example_query_request
  obtain resp s1 s2 where
    h: "handleRequest exampleConfig exampleEnv queryRequest freshState = Done resp s1"
      "handleRequest exampleConfig exampleEnv queryRequest s1 = Done resp s2"
      "outFiles s2 = outFiles freshState"
      "resp_status resp = 200 \<longrightarrow>
         header resp ''X-Image-Optimized'' = Some ''on-the-fly''
         \<and> (\<exists>pl. codecCalls s1 = codecCalls freshState @ [pl]
                  \<and> codecCalls s2 = codecCalls freshState @ [pl, pl])"
    by auto
  from h(1) example_query_response have "resp_status resp = 200"
    by simp
  with h example_query_request show ?thesis
    by auto
qed

text \<open>
  C5, as the specification states it, fails: the variant-name pattern is tried before the
  query parameters are read. A request \<open>a/b-320w.webp?w=800\<close> is served from the existing
  output file without any codec call; when the file is missing, the variant is generated and
  written to the output tree.
\<close>

theorem query_request_never_cached_counterexample:
  "truthy (param_w variantQueryRequest)
   \<and> resultOf (handleRequest exampleConfig exampleEnv variantQueryRequest builtState)
       = Some \<lparr>resp_status = 200, resp_headers = immutableHeaders ''image/webp'',
                resp_body = OutputFileBody ''a/b-320w.webp''\<rparr>
   \<and> codecCalls (stateOf (handleRequest exampleConfig exampleEnv variantQueryRequest builtState))
       = []
   \<and> outFiles freshState ''a/b-320w.webp'' = None
   \<and> outFiles (stateOf (handleRequest exampleConfig exampleEnv variantQueryRequest freshState))
        ''a/b-320w.webp'' = Some 1000"
  by code_simp

text \<open>
  C6 at the request \<open>photo-320w.webp\<close> with no output file yet: the response is generated by
  the codec for this request, and its headers are exactly those of the response that serves
  the file from disk on the next request. Neither carries \<open>X-Image-Optimized\<close>.
\<close>

theorem generated_variant_carries_no_signal:
  "resultOf (handleRequest exampleConfig exampleEnv variantRequest freshState)
     = Some \<lparr>resp_status = 200, resp_headers = immutableHeaders ''image/webp'',
              resp_body = BufferBody []\<rparr>
   \<and> map p_width (codecCalls (stateOf (handleRequest exampleConfig exampleEnv variantRequest
        freshState))) = [Num 320]
   \<and> resultOf (handleRequest exampleConfig exampleEnv variantRequest
        (stateOf (handleRequest exampleConfig exampleEnv variantRequest freshState)))
     = Some \<lparr>resp_status = 200, resp_headers = immutableHeaders ''image/webp'',
              resp_body = OutputFileBody ''photo-320w.webp''\<rparr>
   \<and> header \<lparr>resp_status = 200, resp_headers = immutableHeaders ''image/webp'',
              resp_body = BufferBody []\<rparr> ''X-Image-Optimized'' = None"
  by code_simp

section \<open>Idempotence of the batch run\<close>

subsection \<open>Quiet Originals\<close>

lemma quiet_mono:
  assumes "extends s s'" and "quiet cfg ev s p"
  shows "quiet cfg ev s' p"
  using assms(2) extends_exists [OF assms(1)]
  by (auto simp: quiet_def list_all_iff split: option.splits)

lemma formatsLoop_skip_all:
  "list_all (\<lambda>f. skipExisting cfg \<and> fileExistsOut s (getOutputFilename p tw f)) fs \<Longrightarrow>
   \<exists>vs'. formatsLoop cfg ev p tw th fs vs s = Done vs' s"
  by (induction fs arbitrary: vs) (auto simp: Let_def)

lemma sizesLoop_skip_all:
  assumes "list_all (\<lambda>tw. W < tw \<or> list_all (\<lambda>f. skipExisting cfg
             \<and> fileExistsOut s (getOutputFilename p tw f)) (formats cfg)) ws"
  shows "\<exists>vs'. sizesLoop cfg ev p W ratio ws vs s = Done vs' s"
  using assms
proof (induction ws arbitrary: vs)
  case Nil
  show ?case by simp
next
  case (Cons tw ws)
  show ?case
  proof (cases "W < tw")
    case True
    with Cons show ?thesis by simp
  next
    case False
    with Cons.prems have "list_all (\<lambda>f. skipExisting cfg
             \<and> fileExistsOut s (getOutputFilename p tw f)) (formats cfg)"
      by simp
    from formatsLoop_skip_all [OF this] obtain vs1 where
      "formatsLoop cfg ev p tw (mathRound (dmul tw ratio)) (formats cfg) vs s = Done vs1 s"
      by blast
    with False Cons.IH [of vs1] Cons.prems show ?thesis
      by (simp add: Let_def)
  qed
qed

lemma quiet_no_calls:
  assumes "quiet cfg ev s p"
  shows "codecCalls (stateOf (processImage cfg ev p s)) = codecCalls s"
proof -
  have g: "codecCalls (stateOf (case generateVariants cfg ev p W H s of
                       Threw s' \<Rightarrow> Done () (logError (ProcessFailed p) s')
                     | Done _ s' \<Rightarrow> Done () s')) = codecCalls s"
    if "list_all (\<lambda>tw. W < tw \<or> list_all (\<lambda>f. skipExisting cfg
             \<and> fileExistsOut s (getOutputFilename p tw f)) (formats cfg)) (sizes cfg)"
    for W H
  proof -
    from sizesLoop_skip_all [OF that] obtain vs' where
      "sizesLoop cfg ev p W (ddiv H W) (sizes cfg) [] s = Done vs' s"
      by blast
    then show ?thesis
      by (simp add: generateVariants_def copyOriginal_def writeFile_def logError_def)
  qed
  show ?thesis
  proof (cases "mkdirOk ev (dirOf p)")
    case False
    then show ?thesis by (simp add: processImage_def)
  next
    case True
    then show ?thesis
      using assms g
      by (auto simp: processImage_def quiet_def logError_def split: option.splits)
  qed
qed

lemma quiet_inputView [simp]: "quiet cfg (inputView ev s') s p = quiet cfg ev s p"
  by (simp add: quiet_def)

lemma processFiles_quiet:
  "\<forall>p \<in> set files. quiet cfg ev s p \<Longrightarrow>
   codecCalls (stateOf (processFiles cfg ev files s)) = codecCalls s"
proof (induction files arbitrary: s)
  case Nil
  show ?case by simp
next
  case (Cons f files)
  let ?ev = "inputView ev s"
  have c: "codecCalls (stateOf (processImage cfg ?ev f s)) = codecCalls s"
    using Cons.prems by (simp add: quiet_no_calls)
  show ?case
  proof (cases "processImage cfg ?ev f s")
    case (Threw s')
    with c show ?thesis by simp
  next
    case (Done u s')
    with processImage_extends [of s cfg ?ev f] have "extends s s'" by simp
    with Cons.prems have "\<forall>p \<in> set files. quiet cfg ev s' p"
      by (auto intro: quiet_mono)
    from Cons.IH [OF this] Done c show ?thesis by simp
  qed
qed

subsection \<open>Files written by a run\<close>

lemma written_mono:
  assumes "written cfg c s x" and "extends s s'" and "c \<le> clock s"
  shows "written cfg c s' x"
proof -
  from assms(1) obtain t where t: "outFiles s x = Some t" "skipExisting cfg \<or> c \<le> t"
    by (auto simp: written_def)
  with assms(2) obtain t' where "outFiles s' x = Some t'" "t' = t \<or> clock s \<le> t'"
    by (auto simp: extends_def)
  with t assms(3) show ?thesis
    by (auto simp: written_def)
qed

lemma written_exists: "written cfg c s x \<Longrightarrow> fileExistsOut s x"
  by (auto simp: written_def fileExistsOut_def)

lemma formatsLoop_written:
  assumes "\<forall>pl. transform ev pl \<noteq> None" and "\<forall>d. mkdirOk ev d"
  shows "c \<le> clock s \<Longrightarrow>
         \<exists>vs' s'. formatsLoop cfg ev p tw th fs vs s = Done vs' s'
           \<and> (\<forall>f \<in> set fs. written cfg c s' (getOutputFilename p tw f))"
proof (induction fs arbitrary: vs s)
  case Nil
  show ?case by simp
next
  case (Cons f fs)
  let ?name = "getOutputFilename p tw f"
  let ?v = "\<lparr>v_format = f, v_size = tw, v_path = ?name, v_width = tw, v_height = th\<rparr>"
  let ?pl = "\<lparr>p_source = p, p_width = Num tw, p_height = Num th,
              p_encoder = formatOptions f (quality cfg)\<rparr>"
  let ?s1 = "s\<lparr>codecCalls := codecCalls s @ [?pl]\<rparr>"
  show ?case
  proof (cases "skipExisting cfg \<and> fileExistsOut s ?name")
    case True
    then have eq: "formatsLoop cfg ev p tw th (f # fs) vs s
                     = formatsLoop cfg ev p tw th fs (vs @ [?v]) s"
      by (simp add: Let_def)
    from Cons.IH [OF Cons.prems, of "vs @ [?v]"] obtain vs' s' where
      r: "formatsLoop cfg ev p tw th fs (vs @ [?v]) s = Done vs' s'"
         "\<forall>f \<in> set fs. written cfg c s' (getOutputFilename p tw f)"
      by blast
    from formatsLoop_extends [of s cfg ev p tw th fs "vs @ [?v]"] r(1)
    have e: "extends s s'" by simp
    from True have w: "written cfg c s ?name"
      by (auto simp: written_def fileExistsOut_def)
    have "written cfg c s' ?name"
      using written_mono [OF w e Cons.prems] .
    with eq r show ?thesis by simp
  next
    case False
    from assms(1) have "transform ev ?pl \<noteq> None"
      by (rule spec)
    then obtain buf where buf: "transform ev ?pl = Some buf"
      by blast
    let ?s2 = "writeFile ?name ?s1"
    from False buf assms(2) have eq: "formatsLoop cfg ev p tw th (f # fs) vs s
                     = formatsLoop cfg ev p tw th fs (vs @ [?v]) ?s2"
      by (auto simp: Let_def)
    have c2: "c \<le> clock ?s2"
      using Cons.prems by (simp add: writeFile_def)
    from Cons.IH [OF c2, of "vs @ [?v]"] obtain vs' s' where
      r: "formatsLoop cfg ev p tw th fs (vs @ [?v]) ?s2 = Done vs' s'"
         "\<forall>f \<in> set fs. written cfg c s' (getOutputFilename p tw f)"
      by blast
    from formatsLoop_extends [of ?s2 cfg ev p tw th fs "vs @ [?v]"] r(1)
    have e: "extends ?s2 s'" by simp
    have w: "written cfg c ?s2 ?name"
      using Cons.prems by (simp add: written_def)
    have "written cfg c s' ?name"
      using written_mono [OF w e c2] .
    with eq r show ?thesis by simp
  qed
qed

lemma sizesLoop_written:
  assumes "\<forall>pl. transform ev pl \<noteq> None" and "\<forall>d. mkdirOk ev d"
  shows "c \<le> clock s \<Longrightarrow>
         \<exists>vs' s'. sizesLoop cfg ev p W ratio ws vs s = Done vs' s'
           \<and> (\<forall>tw \<in> set ws. tw \<le> W \<longrightarrow>
                 (\<forall>f \<in> set (formats cfg). written cfg c s' (getOutputFilename p tw f)))"
proof (induction ws arbitrary: vs s)
  case Nil
  show ?case by simp
next
  case (Cons tw ws)
  show ?case
  proof (cases "W < tw")
    case True
    with Cons.IH [OF Cons.prems, of vs] show ?thesis by auto
  next
    case False
    from formatsLoop_written [OF assms Cons.prems, of cfg p tw "mathRound (dmul tw ratio)" "formats cfg" vs]
    obtain vs1 s1 where
      f: "formatsLoop cfg ev p tw (mathRound (dmul tw ratio)) (formats cfg) vs s = Done vs1 s1"
         "\<forall>f \<in> set (formats cfg). written cfg c s1 (getOutputFilename p tw f)"
      by blast
    from formatsLoop_extends [of s cfg ev p tw "mathRound (dmul tw ratio)" "formats cfg" vs] f(1)
    have e1: "extends s s1" by simp
    with Cons.prems have c1: "c \<le> clock s1"
      using extends_clock by fastforce
    from Cons.IH [OF c1, of vs1] obtain vs' s' where
      r: "sizesLoop cfg ev p W ratio ws vs1 s1 = Done vs' s'"
         "\<forall>tw \<in> set ws. tw \<le> W \<longrightarrow>
                 (\<forall>f \<in> set (formats cfg). written cfg c s' (getOutputFilename p tw f))"
      by blast
    from sizesLoop_extends [of s1 cfg ev p W ratio ws vs1] r(1)
    have "extends s1 s'" by simp
    with f(2) c1 have "\<forall>f \<in> set (formats cfg). written cfg c s' (getOutputFilename p tw f)"
      by (auto intro: written_mono)
    moreover have "sizesLoop cfg ev p W ratio (tw # ws) vs s = Done vs' s'"
      using False f(1) r(1) by (simp add: Let_def)
    ultimately show ?thesis
      using r(2) by auto
  qed
qed

lemma generateVariants_written:
  assumes "\<forall>pl. transform ev pl \<noteq> None" and "\<forall>d. mkdirOk ev d" and "fileExistsIn ev p"
  shows "\<exists>s'. generateVariants cfg ev p W H s = Done () s'
           \<and> (\<forall>tw \<in> set (sizes cfg). tw \<le> W \<longrightarrow>
                 (\<forall>f \<in> set (formats cfg).
                    written cfg (clock s) s' (getOutputFilename p tw f)))"
proof -
  from sizesLoop_written [OF assms(1,2), of "clock s" s cfg p W "ddiv H W" "sizes cfg" "[]"]
  obtain vs s1 where
    sl: "sizesLoop cfg ev p W (ddiv H W) (sizes cfg) [] s = Done vs s1"
        "\<forall>tw \<in> set (sizes cfg). tw \<le> W \<longrightarrow>
                 (\<forall>f \<in> set (formats cfg). written cfg (clock s) s1 (getOutputFilename p tw f))"
    by auto
  from sizesLoop_extends [of s cfg ev p W "ddiv H W" "sizes cfg" "[]"] sl(1)
  have c1: "clock s \<le> clock s1"
    by (simp add: extends_def)
  let ?s2 = "if keepOriginal cfg then writeFile p s1 else s1"
  let ?s3 = "?s2\<lparr>images := (images ?s2)(p \<mapsto>
               \<lparr>e_original = p, e_width = W, e_height = H, e_variants = vs\<rparr>)\<rparr>"
  have g: "generateVariants cfg ev p W H s = Done () ?s3"
    using sl(1) assms(2,3) by (simp add: generateVariants_def copyOriginal_def)
  have "extends s1 ?s2"
    by (simp add: extends_refl extends_writeFile)
  then have e3: "extends s1 ?s3"
    by (simp add: extends_def)
  have "\<forall>tw \<in> set (sizes cfg). tw \<le> W \<longrightarrow>
          (\<forall>f \<in> set (formats cfg). written cfg (clock s) ?s3 (getOutputFilename p tw f))"
  proof (intro ballI impI)
    fix tw f
    assume "tw \<in> set (sizes cfg)" "tw \<le> W" "f \<in> set (formats cfg)"
    with sl(2) have "written cfg (clock s) s1 (getOutputFilename p tw f)"
      by blast
    from written_mono [OF this e3 c1]
    show "written cfg (clock s) ?s3 (getOutputFilename p tw f)" .
  qed
  with g show ?thesis by blast
qed

subsection \<open>Fresh Originals\<close>

lemma fresh_iff:
  "(\<not> needsProcessing ev s p) =
     (\<exists>e v vs t t'. images s p = Some e \<and> e_variants e = v # vs
        \<and> (\<forall>u \<in> set (v # vs). fileExistsOut s (v_path u))
        \<and> inputStat ev p = Some t \<and> outFiles s (v_path v) = Some t' \<and> \<not> t' < t)"
  by (auto simp: needsProcessing_def missingVariant_iff fileExistsOut_def
      split: option.splits list.splits)

lemma fresh_mono:
  assumes "extends s s'" and "images s' p = images s p"
    and "inputStat ev p = Some t" and "t \<le> clock s"
    and "\<not> needsProcessing ev s p"
  shows "\<not> needsProcessing ev s' p"
proof -
  from assms(5) obtain e v vs t0 where
    h: "images s p = Some e" "e_variants e = v # vs"
       "\<forall>u \<in> set (v # vs). fileExistsOut s (v_path u)"
       "outFiles s (v_path v) = Some t0" "\<not> t0 < t"
    using assms(3) by (auto simp: fresh_iff)
  from h(4) assms(1) obtain t' where t': "outFiles s' (v_path v) = Some t'" "t' = t0 \<or> clock s \<le> t'"
    by (auto simp: extends_def)
  with h(5) assms(4) have "\<not> t' < t" by auto
  moreover from h(3) have "\<forall>u \<in> set (v # vs). fileExistsOut s' (v_path u)"
    using extends_exists [OF assms(1)] by blast
  ultimately show ?thesis
    using h(1,2) assms(2,3) t'(1) unfolding fresh_iff by auto
qed

lemma settled_cong:
  assumes "images s' = images s" and "outFiles s' = outFiles s"
  shows "settled cfg ev s' p = settled cfg ev s p"
    and "needsProcessing ev s' p = needsProcessing ev s p"
    and "quiet cfg ev s' p = quiet cfg ev s p"
proof -
  have fe: "fileExistsOut s' = fileExistsOut s"
    by (rule ext) (simp add: fileExistsOut_def assms)
  have mv: "\<And>vs. missingVariant s' vs = missingVariant s vs"
    by (simp add: missingVariant_iff fe)
  show np: "needsProcessing ev s' p = needsProcessing ev s p"
    by (simp add: needsProcessing_def mv assms split: option.splits list.splits)
  show q: "quiet cfg ev s' p = quiet cfg ev s p"
    by (simp add: quiet_def fe split: option.splits)
  from np q show "settled cfg ev s' p = settled cfg ev s p"
    by (simp add: settled_def)
qed

lemma processImage_images:
  "images (stateOf (processImage cfg ev q s)) = images s
   \<or> (\<exists>e. images (stateOf (processImage cfg ev q s)) = (images s)(q \<mapsto> e))"
proof -
  have "images (stateOf (case generateVariants cfg ev q W H s of
                       Threw s' \<Rightarrow> Done () (logError (ProcessFailed q) s')
                     | Done _ s' \<Rightarrow> Done () s')) = images s
        \<or> (\<exists>e. images (stateOf (case generateVariants cfg ev q W H s of
                       Threw s' \<Rightarrow> Done () (logError (ProcessFailed q) s')
                     | Done _ s' \<Rightarrow> Done () s')) = (images s)(q \<mapsto> e))" for W H
  proof (cases "generateVariants cfg ev q W H s")
    case (Done u s')
    with generateVariants_Done [OF Done] show ?thesis by auto
  next
    case (Threw s')
    with generateVariants_Threw [OF Threw] show ?thesis by (simp add: logError_def)
  qed
  then show ?thesis
    by (auto simp: processImage_def logError_def split: option.splits)
qed

lemma processImage_images_other:
  "q \<noteq> p \<Longrightarrow> images (stateOf (processImage cfg ev q s)) p = images s p"
  using processImage_images [of cfg ev q s] by auto

lemma variantsFor_Nil:
  assumes "variantsFor cfg p W H = []"
  shows "list_all (\<lambda>tw. W < tw \<or> list_all (\<lambda>f. skipExisting cfg
             \<and> fileExistsOut s (getOutputFilename p tw f)) (formats cfg)) (sizes cfg)"
proof (cases "formats cfg")
  case Nil
  then show ?thesis by (simp add: list_all_iff)
next
  case (Cons f fs)
  with assms have "\<forall>tw \<in> set (sizes cfg). \<not> tw \<le> W"
    by (auto simp: variantsFor_def)
  then show ?thesis by (auto simp: list_all_iff)
qed

lemma variantsFor_paths:
  "u \<in> set (variantsFor cfg p W H) \<Longrightarrow>
   \<exists>tw \<in> set (sizes cfg). tw \<le> W \<and> (\<exists>f \<in> set (formats cfg). v_path u = getOutputFilename p tw f)"
  by (fastforce simp: variantsFor_def)

lemma processImage_settled:
  assumes codec: "\<forall>pl. transform ev pl \<noteq> None" and mk: "\<forall>d. mkdirOk ev d"
    and st: "inputStat ev p = Some t" and le: "t \<le> clock s"
  shows "settled cfg ev (stateOf (processImage cfg ev p s)) p"
proof (cases "\<exists>md W H. metadata ev p = Some md \<and> m_width md = Some W \<and> m_height md = Some H
                 \<and> W \<noteq> 0 \<and> H \<noteq> 0")
  case False
  then have "quiet cfg ev (stateOf (processImage cfg ev p s)) p"
    by (auto simp: quiet_def split: option.splits)
  then show ?thesis by (simp add: settled_def)
next
  case True
  then obtain md W H where md: "metadata ev p = Some md" "m_width md = Some W"
    "m_height md = Some H" "W \<noteq> 0" "H \<noteq> 0"
    by blast
  from st have ex: "fileExistsIn ev p"
    by (simp add: fileExistsIn_def)
  from generateVariants_written [OF codec mk ex, of cfg W H s] obtain s' where
    g: "generateVariants cfg ev p W H s = Done () s'"
    and w: "\<forall>tw \<in> set (sizes cfg). tw \<le> W \<longrightarrow>
                 (\<forall>f \<in> set (formats cfg). written cfg (clock s) s' (getOutputFilename p tw f))"
    by blast
  from mk md g have pi: "stateOf (processImage cfg ev p s) = s'"
    by (simp add: processImage_def)
  from generateVariants_Done [OF g] have im:
    "images s' p = Some \<lparr>e_original = p, e_width = W, e_height = H,
                          e_variants = variantsFor cfg p W H\<rparr>"
    by simp
  show ?thesis
  proof (cases "skipExisting cfg \<or> variantsFor cfg p W H = []")
    case True
    have "list_all (\<lambda>tw. W < tw \<or> list_all (\<lambda>f. skipExisting cfg
             \<and> fileExistsOut s' (getOutputFilename p tw f)) (formats cfg)) (sizes cfg)"
    proof (cases "skipExisting cfg")
      case True
      have "fileExistsOut s' (getOutputFilename p tw f)"
        if "tw \<in> set (sizes cfg)" "\<not> W < tw" "f \<in> set (formats cfg)" for tw f
      proof -
        from that w have "written cfg (clock s) s' (getOutputFilename p tw f)"
          by auto
        then show ?thesis by (rule written_exists)
      qed
      with True show ?thesis
        by (auto simp: list_all_iff)
    next
      case False
      with \<open>skipExisting cfg \<or> variantsFor cfg p W H = []\<close>
      have "variantsFor cfg p W H = []" by simp
      then show ?thesis by (rule variantsFor_Nil)
    qed
    with md have "quiet cfg ev s' p"
      by (simp add: quiet_def)
    with pi show ?thesis by (simp add: settled_def)
  next
    case False
    then obtain v vs where vv: "variantsFor cfg p W H = v # vs" and ns: "\<not> skipExisting cfg"
      by (cases "variantsFor cfg p W H") auto
    have all: "\<forall>u \<in> set (v # vs). written cfg (clock s) s' (v_path u)"
    proof
      fix u
      assume "u \<in> set (v # vs)"
      with vv variantsFor_paths [of u cfg p W H] w
      show "written cfg (clock s) s' (v_path u)"
        by auto
    qed
    then have "written cfg (clock s) s' (v_path v)"
      by simp
    with ns obtain t' where t': "outFiles s' (v_path v) = Some t'" "clock s \<le> t'"
      by (auto simp: written_def)
    from all have "\<forall>u \<in> set (v # vs). fileExistsOut s' (v_path u)"
      by (auto intro: written_exists)
    with im vv st t' le have "\<not> needsProcessing ev s' p"
      unfolding fresh_iff by auto
    with pi show ?thesis by (simp add: settled_def)
  qed
qed

lemma settled_step:
  assumes codec: "\<forall>pl. transform ev pl \<noteq> None" and mk: "\<forall>d. mkdirOk ev d"
    and st: "inputStat ev p = Some t" and le: "t \<le> clock s"
    and pre: "settled cfg ev s p \<or> q = p"
  shows "settled cfg ev (stateOf (processImage cfg ev q s)) p"
proof (cases "q = p")
  case True
  with processImage_settled [OF codec mk st le] show ?thesis by simp
next
  case False
  with pre have s: "settled cfg ev s p" by simp
  have e: "extends s (stateOf (processImage cfg ev q s))"
    by (rule processImage_extends)
  have i: "images (stateOf (processImage cfg ev q s)) p = images s p"
    using False by (rule processImage_images_other)
  from s show ?thesis
    unfolding settled_def
    using fresh_mono [OF e i st le] quiet_mono [OF e] by blast
qed

lemma processFiles_settled:
  assumes codec: "\<forall>pl. transform ev pl \<noteq> None" and mk: "\<forall>d. mkdirOk ev d"
    and st: "inputStat ev p = Some t" and out: "outputInInput ev = None"
  shows "t \<le> clock s \<Longrightarrow> settled cfg ev s p \<or> p \<in> set files \<Longrightarrow>
         settled cfg ev (stateOf (processFiles cfg ev files s)) p"
proof (induction files arbitrary: s)
  case Nil
  then show ?case by simp
next
  case (Cons q files)
  from out have v: "inputView ev s = ev"
    by simp
  from mk have nt: "\<not> threw (processImage cfg ev q s)"
    by (simp add: processImage_threw_iff)
  then obtain u s' where d: "processImage cfg ev q s = Done u s'"
    by (cases "processImage cfg ev q s") auto
  from processImage_extends [of s cfg ev q] d have "extends s s'" by simp
  with Cons.prems(1) have le': "t \<le> clock s'"
    using extends_clock by fastforce
  have "settled cfg ev s' p \<or> p \<in> set files"
  proof (cases "settled cfg ev s p \<or> q = p")
    case True
    from settled_step [OF codec mk st Cons.prems(1) True] d show ?thesis by simp
  next
    case False
    with Cons.prems(2) show ?thesis by auto
  qed
  from Cons.IH [OF le' this] d v show ?case by simp
qed

lemma processFiles_no_throw:
  assumes "\<forall>d. mkdirOk ev d"
  shows "\<not> threw (processFiles cfg ev files s)"
proof (induction files arbitrary: s)
  case Nil
  show ?case by simp
next
  case (Cons q files)
  from assms have "\<not> threw (processImage cfg (inputView ev s) q s)"
    by (simp add: processImage_threw_iff)
  then obtain u s' where d: "processImage cfg (inputView ev s) q s = Done u s'"
    by (cases "processImage cfg (inputView ev s) q s") auto
  with Cons [of s'] show ?case by simp
qed

subsection \<open>Two runs in a row\<close>

lemma writeManifest_frame:
  "codecCalls (stateOf (writeManifest ev s)) = codecCalls s
   \<and> images (stateOf (writeManifest ev s)) = images s
   \<and> outFiles (stateOf (writeManifest ev s)) = outFiles s"
  by (simp add: writeManifest_def Let_def)

lemma processAllImages_frame:
  assumes "\<not> isProcessing s"
  shows "codecCalls (processAllImages cfg ev fa s)
           = codecCalls (stateOf (processAllBody cfg ev fa (s\<lparr>isProcessing := True\<rparr>)))"
    and "images (processAllImages cfg ev fa s)
           = images (stateOf (processAllBody cfg ev fa (s\<lparr>isProcessing := True\<rparr>)))"
    and "outFiles (processAllImages cfg ev fa s)
           = outFiles (stateOf (processAllBody cfg ev fa (s\<lparr>isProcessing := True\<rparr>)))"
  using assms
  by (cases "processAllBody cfg ev fa (s\<lparr>isProcessing := True\<rparr>)";
      simp add: processAllImages_def Let_def logError_def)+

lemma processAllBody_after_files:
  assumes "inputDirExists ev" and "getImageFiles ev = Some files" and "files \<noteq> []"
    and "mkdirOk ev []"
    and "L = (if fa then files else filter (needsProcessing ev s) files)"
    and "fa \<or> L \<noteq> []"
    and "processFiles cfg ev L s = Done u s2"
    and "outputInInput ev = None"
  shows "codecCalls (stateOf (processAllBody cfg ev fa s)) = codecCalls s2
         \<and> images (stateOf (processAllBody cfg ev fa s)) = images s2
         \<and> outFiles (stateOf (processAllBody cfg ev fa s)) = outFiles s2"
proof -
  have "processAllBody cfg ev fa s
          = (if generateManifest cfg then writeManifest ev s2 else Done () s2)"
    using assms by (auto simp: processAllBody_def Let_def)
  then show ?thesis
    using writeManifest_frame [of ev s2] by simp
qed

lemma incremental_run_quiet:
  assumes "getImageFiles ev = Some files"
    and "\<forall>p \<in> set files. settled cfg ev s p"
    and out: "outputInInput ev = None"
  shows "codecCalls (processAllImages cfg ev False s) = codecCalls s"
proof (cases "isProcessing s")
  case True
  then show ?thesis by (simp add: processAllImages_def)
next
  case False
  let ?s1 = "s\<lparr>isProcessing := True\<rparr>"
  let ?L = "filter (needsProcessing ev ?s1) files"
  have set1: "\<forall>p \<in> set files. settled cfg ev ?s1 p"
    using assms(2) settled_cong(1) [of ?s1 s cfg ev] by simp
  then have q: "\<forall>p \<in> set ?L. quiet cfg ev ?s1 p"
    by (auto simp: settled_def)
  have pf: "codecCalls (stateOf (processFiles cfg ev ?L ?s1)) = codecCalls ?s1"
    using processFiles_quiet [OF q] .
  have "codecCalls (stateOf (processAllBody cfg ev False ?s1)) = codecCalls ?s1"
  proof (cases "inputDirExists ev \<and> files \<noteq> [] \<and> mkdirOk ev [] \<and> ?L \<noteq> []")
    case False
    then show ?thesis
      using assms(1) out by (auto simp: processAllBody_def Let_def logError_def)
  next
    case True
    show ?thesis
    proof (cases "processFiles cfg ev ?L ?s1")
      case (Threw s2)
      with True assms(1) pf out show ?thesis
        by (auto simp: processAllBody_def Let_def)
    next
      case (Done u s2)
      from True have "inputDirExists ev" "files \<noteq> []" "mkdirOk ev []" "False \<or> ?L \<noteq> []"
        by simp_all
      from processAllBody_after_files [OF this(1) assms(1) this(2,3) _ this(4) Done out] pf Done
      show ?thesis by simp
    qed
  qed
  with False show ?thesis
    by (simp add: processAllImages_frame(1))
qed

lemma run_settles:
  assumes codec: "\<forall>pl. transform ev pl \<noteq> None" and mk: "\<forall>d. mkdirOk ev d"
    and files: "getImageFiles ev = Some files"
    and src: "\<forall>p \<in> set files. \<exists>t. inputStat ev p = Some t \<and> t \<le> clock s"
    and dir: "inputDirExists ev" and idle: "\<not> isProcessing s"
    and out: "outputInInput ev = None"
  shows "\<forall>p \<in> set files. settled cfg ev (processAllImages cfg ev fa s) p"
proof
  fix p
  assume p: "p \<in> set files"
  let ?s1 = "s\<lparr>isProcessing := True\<rparr>"
  let ?L = "if fa then files else filter (needsProcessing ev ?s1) files"
  from p src obtain t where t: "inputStat ev p = Some t" "t \<le> clock ?s1"
    by auto
  from p have ne: "files \<noteq> []" by auto
  from mk have mk0: "mkdirOk ev []" by simp
  show "settled cfg ev (processAllImages cfg ev fa s) p"
  proof (cases "fa \<or> ?L \<noteq> []")
    case False
    then have "\<not> needsProcessing ev ?s1 p"
      using p by (auto simp: filter_empty_conv)
    then have s1: "settled cfg ev ?s1 p"
      by (simp add: settled_def)
    from False have "processAllBody cfg ev fa ?s1 = Done () ?s1"
      using dir files ne mk0 out by (auto simp: processAllBody_def Let_def)
    then have "images (processAllImages cfg ev fa s) = images ?s1"
      "outFiles (processAllImages cfg ev fa s) = outFiles ?s1"
      using idle by (simp_all add: processAllImages_frame)
    from settled_cong(1) [OF this] s1 show ?thesis by simp
  next
    case True
    have "\<not> threw (processFiles cfg ev ?L ?s1)"
      using mk by (rule processFiles_no_throw)
    then obtain u s2 where
      d: "processFiles cfg ev ?L ?s1 = Done u s2"
      by (cases "processFiles cfg ev ?L ?s1") simp_all
    have pre: "settled cfg ev ?s1 p \<or> p \<in> set ?L"
      using p by (auto simp: settled_def)
    from processFiles_settled [OF codec mk t(1) out t(2) pre] d
    have s2: "settled cfg ev s2 p" by simp
    from processAllBody_after_files [OF dir files ne mk0 refl True d out]
    have "images (processAllImages cfg ev fa s) = images s2"
      "outFiles (processAllImages cfg ev fa s) = outFiles s2"
      using idle by (simp_all add: processAllImages_frame)
    from settled_cong(1) [OF this] s2 show ?thesis by simp
  qed
qed

lemma incremental_run_after_run:
  assumes codec: "\<forall>pl. transform ev pl \<noteq> None" and mk: "\<forall>d. mkdirOk ev d"
    and files: "getImageFiles ev = Some files"
    and src: "\<forall>p \<in> set files. \<exists>t. inputStat ev p = Some t \<and> t \<le> clock s"
    and out: "outputInInput ev = None"
  shows "codecCalls (processAllImages cfg ev False (processAllImages cfg ev fa s))
           = codecCalls (processAllImages cfg ev fa s)"
proof (cases "isProcessing s")
  case True
  then show ?thesis by (simp add: processAllImages_def)
next
  case idle: False
  show ?thesis
  proof (cases "inputDirExists ev")
    case True
    from run_settles [OF codec mk files src True idle out]
    have "\<forall>p \<in> set files. settled cfg ev (processAllImages cfg ev fa s) p" .
    from incremental_run_quiet [OF files this out] show ?thesis .
  next
    case False
    then have "\<And>s'. codecCalls (processAllImages cfg ev False s') = codecCalls s'"
      by (simp add: processAllImages_def processAllBody_def Let_def logError_def)
    then show ?thesis .
  qed
qed

text \<open>
  C2, as the code has it. Let the output directory lie outside the input directory, let the
  codec and \<^verbatim>\<open>mkdir\<close> never fail, and let every discovered source file exist with a
  modification time not later than the clock at the start. Then the second of two runs of
  \<^verbatim>\<open>processAllImages(false)\<close> in a row invokes no encode: the codec trace after the second
  run is the trace after the first.
\<close>

theorem second_run_no_encodes:
  assumes "\<forall>pl. transform ev pl \<noteq> None" and "\<forall>d. mkdirOk ev d"
    and "getImageFiles ev = Some files"
    and "\<forall>p \<in> set files. \<exists>t. inputStat ev p = Some t \<and> t \<le> clock s"
    and "outputInInput ev = None"
  shows "codecCalls (processAllImages cfg ev False (processAllImages cfg ev False s))
           = codecCalls (processAllImages cfg ev False s)"
  using assms by (rule incremental_run_after_run)

lemma example_files:
  "getImageFiles exampleEnv = Some [''a/b.jpg'', ''photo.jpg'', ''wide.jpg'']"
  by code_simp

lemma example_first_run:
  "map p_width (codecCalls (processAllImages exampleConfig exampleEnv False freshState))
     = [Num 320, Num 640, Num 320, Num 320, Num 640]"
  by code_simp

theorem second_run_no_encodes_witness:
  "(\<forall>pl. transform exampleEnv pl \<noteq> None) \<and> (\<forall>d. mkdirOk exampleEnv d)
   \<and> outputInInput exampleEnv = None
   \<and> getImageFiles exampleEnv = Some [''a/b.jpg'', ''photo.jpg'', ''wide.jpg'']
   \<and> inputStat exampleEnv ''a/b.jpg'' = Some 900
   \<and> inputStat exampleEnv ''photo.jpg'' = Some 900
   \<and> inputStat exampleEnv ''wide.jpg'' = Some 900
   \<and> 900 \<le> clock freshState
   \<and> map p_width (codecCalls (processAllImages exampleConfig exampleEnv False
        (processAllImages exampleConfig exampleEnv False freshState)))
       = [Num 320, Num 640, Num 320, Num 320, Num 640]"
  using second_run_no_encodes [of exampleEnv "[''a/b.jpg'', ''photo.jpg'', ''wide.jpg'']"
      freshState exampleConfig] example_files example_first_run
  by (simp add: exampleEnv_def freshState_def)

text \<open>
  C2, as the specification states it, fails. With \<^verbatim>\<open>skipExisting\<close> off and a source whose
  modification time lies after the clock, the variant written by the first run is older than
  its source: the second run finds the Original STALE and encodes it again.
\<close>

theorem second_run_no_encodes_counterexample:
  "map p_width (codecCalls (processAllImages (exampleConfig\<lparr>skipExisting := False\<rparr>) futureEnv
      False freshState)) = [Num 320]
   \<and> map p_width (codecCalls (processAllImages (exampleConfig\<lparr>skipExisting := False\<rparr>) futureEnv
      False (processAllImages (exampleConfig\<lparr>skipExisting := False\<rparr>) futureEnv False
        freshState))) = [Num 320, Num 320]"
  by code_simp

text \<open>
  The output directory has to lie outside the input directory. With the output root in the
  directory \<open>optimized\<close> of the input tree, the second run discovers the variant the first
  run wrote, finds it STALE for want of a manifest entry, and encodes it, although
  \<^verbatim>\<open>skipExisting\<close> is on and no source is dated after the clock.
\<close>

lemma nested_output_rediscovered:
  "getImageFiles (inputView nestedEnv freshState) = Some [''photo.jpg'']"
  "codecCalls (processAllImages exampleConfig nestedEnv False freshState)
     = [\<lparr>p_source = ''photo.jpg'', p_width = Num 320, p_height = Num 256, p_encoder = Webp (Num 80)\<rparr>]"
  "getImageFiles (inputView nestedEnv (processAllImages exampleConfig nestedEnv False freshState))
     = Some [''photo.jpg'', ''optimized/photo-320w.webp'']"
  "codecCalls (processAllImages exampleConfig nestedEnv False
       (processAllImages exampleConfig nestedEnv False freshState))
     = [\<lparr>p_source = ''photo.jpg'', p_width = Num 320, p_height = Num 256, p_encoder = Webp (Num 80)\<rparr>,
        \<lparr>p_source = ''optimized/photo-320w.webp'', p_width = Num 320, p_height = Num 256,
          p_encoder = Webp (Num 80)\<rparr>]"
  by code_simp+

end
